theory Spec2Isabelle
  imports Main "HOL-Library.AList" "HOL-Library.Sublist"
begin

section \<open>The keep-alive connection pool of aliveAgent.js\<close>

text \<open>
  The Agent keeps three tables keyed by the endpoint name \<open>host:port[:localAddress]\<close>:
  \<open>requests\<close> (waiting requests), \<open>sockets\<close> (active connections) and \<open>idleSockets\<close>
  (parked connections with the instant up to which they stay valid). The JavaScript mutates
  these tables in place; here every function takes the Agent and returns the updated one.

  Sockets and requests are objects compared by identity in the source (\<open>indexOf\<close>,
  \<open>===\<close>); they are identified by natural numbers. What the source only reaches through
  such an object is kept beside the tables:
  \<^item> \<open>nextSock\<close>: the objects handed out so far by \<open>createConnection\<close> (each call returns
    a new object, numbered in order);
  \<^item> \<open>listeners\<close>: the \<open>free\<close>/\<open>close\<close>/\<open>agentRemove\<close> listeners that
    \<open>findOrCreateSocket\<close> registers on a socket it creates, with the values their
    closures capture (\<open>name\<close>, \<open>host\<close>, \<open>port\<close>, \<open>localAddress\<close>);
  \<^item> \<open>destroyed\<close>: the sockets whose \<open>destroyed\<close> flag is set;
  \<^item> \<open>assigned\<close>: the calls \<open>req.onSocket(socket)\<close> made so far, in order;
  \<^item> \<open>inUse\<close>: the sockets handed to a request by \<open>onSocket\<close> that have not emitted
    \<open>free\<close> since;
  \<^item> \<open>pendingTimers\<close>: the timeouts set by \<open>setTimeout\<close> that have not fired yet;
  \<^item> \<open>clock\<close>: the value \<open>+new Date()\<close> reads, in milliseconds.

  \<open>idleSockets\<close> is an association list in insertion order, because the validation timer
  enumerates its keys (\<open>for (var name in self.idleSockets)\<close>); the other two tables are
  only ever looked up by key and are maps.

  The options passed to \<open>createConnection\<close> (among them \<open>servername\<close>, taken from the
  request's host header) do not reach the pool's tables and are not part of the model. The
  port is taken in the textual form that \<open>host + ':' + port\<close> gives it.
\<close>

type_synonym sock = nat
type_synonym req = nat
type_synonym name = string

record sobj =
  socket :: sock
  validTill :: int

record options =
  opt_maxSockets :: "int option"
  opt_keepAlive :: "int option"

record agent =
  requests :: "name \<rightharpoonup> req list"
  sockets :: "name \<rightharpoonup> sock list"
  idleSockets :: "(name \<times> sobj list) list"
  maxSockets :: int
  keepAlive :: int
  validationTimer :: bool
  nextSock :: nat
  listeners :: "sock \<rightharpoonup> (name \<times> string \<times> string \<times> string option)"
  destroyed :: "sock set"
  assigned :: "(req \<times> sock) list"
  inUse :: "sock set"
  pendingTimers :: nat
  clock :: int

subsection \<open>Construction\<close>

definition defaultMaxSockets :: int where
  "defaultMaxSockets = 5"

definition defaultKeepAlive :: int where
  "defaultKeepAlive = 10 * 1000"

text \<open>\<open>x || d\<close> on an optional number: \<open>undefined\<close> and \<open>0\<close> are falsy.\<close>

definition or_default :: "int option \<Rightarrow> int \<Rightarrow> int" where
  "or_default x d = (case x of None \<Rightarrow> d | Some v \<Rightarrow> if v = 0 then d else v)"

text \<open>\<open>new Agent(options)\<close>, constructed when the clock reads \<open>t0\<close>.\<close>

definition Agent :: "options \<Rightarrow> int \<Rightarrow> agent" where
  "Agent opts t0 =
     \<lparr> requests = Map.empty, sockets = Map.empty, idleSockets = [],
       maxSockets = or_default (opt_maxSockets opts) defaultMaxSockets,
       keepAlive = or_default (opt_keepAlive opts) defaultKeepAlive,
       validationTimer = False, nextSock = 0, listeners = Map.empty, destroyed = {},
       assigned = [], inUse = {}, pendingTimers = 0, clock = t0 \<rparr>"

text \<open>\<open>var name = host + ':' + port; if (localAddress) name += ':' + localAddress\<close>;
  an absent and an empty \<open>localAddress\<close> are both falsy.\<close>

definition getName :: "string \<Rightarrow> string \<Rightarrow> string option \<Rightarrow> name" where
  "getName host port localAddress =
     (let name = host @ '':'' @ port
      in case localAddress of
           None \<Rightarrow> name
         | Some la \<Rightarrow> if la = [] then name else name @ '':'' @ la)"

subsection \<open>Views of the three tables\<close>

text \<open>The entries under a key, with a missing key read as no entries.\<close>

definition active :: "agent \<Rightarrow> name \<Rightarrow> sock list" where
  "active a n = (case sockets a n of None \<Rightarrow> [] | Some xs \<Rightarrow> xs)"

definition idle :: "agent \<Rightarrow> name \<Rightarrow> sobj list" where
  "idle a n = (case map_of (idleSockets a) n of None \<Rightarrow> [] | Some es \<Rightarrow> es)"

definition queue :: "agent \<Rightarrow> name \<Rightarrow> req list" where
  "queue a n = (case requests a n of None \<Rightarrow> [] | Some rs \<Rightarrow> rs)"

text \<open>An idle entry has expired when \<open>validTill < now\<close>. The entries of a key that a
  validation at the present instant splices off (the expired ones at the front of the
  list) and those it leaves.\<close>

definition expired :: "agent \<Rightarrow> sobj \<Rightarrow> bool" where
  "expired a e = (validTill e < clock a)"

definition stale :: "agent \<Rightarrow> name \<Rightarrow> sobj list" where
  "stale a n = takeWhile (expired a) (idle a n)"

definition reusable :: "agent \<Rightarrow> name \<Rightarrow> sobj list" where
  "reusable a n = dropWhile (expired a) (idle a n)"

subsection \<open>Removal from the active set and from the idle list\<close>

text \<open>\<open>indexOf\<close> and \<open>splice(index, 1)\<close> remove the first occurrence; an emptied array is
  deleted from the table.\<close>

definition removeFromSockets :: "agent \<Rightarrow> sock \<Rightarrow> name \<Rightarrow> agent" where
  "removeFromSockets a s name =
     (case sockets a name of
        None \<Rightarrow> a
      | Some xs \<Rightarrow>
          if s \<in> set xs then
            (let xs' = remove1 s xs
             in if xs' = [] then a\<lparr>sockets := (sockets a)(name := None)\<rparr>
                else a\<lparr>sockets := (sockets a)(name \<mapsto> xs')\<rparr>)
          else a)"

text \<open>The first entry whose socket is \<open>s\<close>, as the \<open>some\<close> callback finds it.\<close>

fun spliceSocket :: "sock \<Rightarrow> sobj list \<Rightarrow> sobj list" where
  "spliceSocket s [] = []"
| "spliceSocket s (e # es) = (if socket e = s then es else e # spliceSocket s es)"

definition removeFromIdleSockets :: "agent \<Rightarrow> sock \<Rightarrow> name \<Rightarrow> agent" where
  "removeFromIdleSockets a s name =
     (case map_of (idleSockets a) name of
        None \<Rightarrow> a
      | Some es \<Rightarrow>
          if s \<in> socket ` set es then
            (let es' = spliceSocket s es
             in if es' = [] then a\<lparr>idleSockets := AList.delete name (idleSockets a)\<rparr>
                else a\<lparr>idleSockets := AList.update name es' (idleSockets a)\<rparr>)
          else a)"

subsection \<open>The validation timer and the idle list\<close>

definition setupValidator :: "agent \<Rightarrow> agent" where
  "setupValidator a =
     (if validationTimer a then a
      else a\<lparr>validationTimer := True, pendingTimers := Suc (pendingTimers a)\<rparr>)"

definition putIdleSocket :: "agent \<Rightarrow> sock \<Rightarrow> name \<Rightarrow> agent" where
  "putIdleSocket a s name =
     (let es = (case map_of (idleSockets a) name of None \<Rightarrow> [] | Some es \<Rightarrow> es);
          e = \<lparr>socket = s, validTill = clock a + keepAlive a\<rparr>
      in setupValidator (a\<lparr>idleSockets := AList.update name (es @ [e]) (idleSockets a)\<rparr>))"

text \<open>
  \<open>validateIdle\<close> reads \<open>this.idleSockets[name]\<close> without a check and throws a TypeError
  when the key is missing: the result \<open>None\<close>. Both callers look the key up first.
  The \<open>some\<close> callback counts the entries before the first one with
  \<open>validTill < now\<close> false; those are spliced off and destroyed. The function returns the
  boolean \<open>sockets.length > 0\<close>.
\<close>

definition validateIdle :: "agent \<Rightarrow> name \<Rightarrow> (bool \<times> agent) option" where
  "validateIdle a name =
     (case map_of (idleSockets a) name of
        None \<Rightarrow> None
      | Some es \<Rightarrow>
          (let now = clock a;
               count = length (takeWhile (\<lambda>e. validTill e < now) es)
           in if count > 0 then
                (let removed = take count es;
                     rest = drop count es;
                     a1 = a\<lparr>destroyed := destroyed a \<union> socket ` set removed\<rparr>;
                     a2 = (if rest = []
                           then a1\<lparr>idleSockets := AList.delete name (idleSockets a1)\<rparr>
                           else a1\<lparr>idleSockets := AList.update name rest (idleSockets a1)\<rparr>)
                 in Some (rest \<noteq> [], a2))
              else Some (es \<noteq> [], a)))"

text \<open>
  \<open>findIdleSocket\<close>: \<open>null\<close> when the key is missing or \<open>validateIdle\<close> returns false;
  otherwise \<open>shift()\<close> takes the first entry, the array stays in the table even when it
  is now empty, and the socket is pushed on the active set. After \<open>validateIdle\<close> has
  returned true the key is present with a non-empty array (\<open>findIdleSocket_reuse\<close> below),
  so the other branches of the inner case are never taken: \<open>validateIdle\<close> throwing, the
  key missing at \<open>shift()\<close>, and \<open>shift()\<close> giving \<open>undefined\<close> (the source's
  \<open>if (!sobj) return null\<close>).
\<close>

definition findIdleSocket :: "agent \<Rightarrow> name \<Rightarrow> sock option \<times> agent" where
  "findIdleSocket a name =
     (case map_of (idleSockets a) name of
        None \<Rightarrow> (None, a)
      | Some _ \<Rightarrow>
          (case validateIdle a name of
             None \<Rightarrow> (None, a)
           | Some (ok, a1) \<Rightarrow>
               if \<not> ok then (None, a1)
               else
                 (case map_of (idleSockets a1) name of
                    None \<Rightarrow> (None, a1)
                  | Some [] \<Rightarrow> (None, a1)
                  | Some (e # rest) \<Rightarrow>
                      (let a2 = a1\<lparr>idleSockets := AList.update name rest (idleSockets a1)\<rparr>;
                           xs = (case sockets a2 name of None \<Rightarrow> [] | Some xs \<Rightarrow> xs)
                       in (Some (socket e),
                           a2\<lparr>sockets := (sockets a2)(name \<mapsto> xs @ [socket e])\<rparr>)))))"

subsection \<open>Obtaining a connection\<close>

text \<open>
  \<open>findOrCreateSocket\<close>: an idle socket if \<open>findIdleSocket\<close> gives one; otherwise a new
  object from \<open>createConnection\<close> (not destroyed), pushed on the active set, with its three
  listeners registered.
\<close>

definition findOrCreateSocket ::
  "agent \<Rightarrow> name \<Rightarrow> string \<Rightarrow> string \<Rightarrow> string option \<Rightarrow> req option \<Rightarrow> sock \<times> agent" where
  "findOrCreateSocket a name host port localAddress r =
     (case findIdleSocket a name of
        (Some c, a1) \<Rightarrow> (c, a1)
      | (None, a1) \<Rightarrow>
          (let s = nextSock a1;
               xs = (case sockets a1 name of None \<Rightarrow> [] | Some xs \<Rightarrow> xs)
           in (s, a1\<lparr>nextSock := Suc s,
                     destroyed := destroyed a1 - {s},
                     sockets := (sockets a1)(name \<mapsto> xs @ [s]),
                     listeners := (listeners a1)(s \<mapsto> (name, host, port, localAddress))\<rparr>)))"

text \<open>\<open>req.onSocket(socket)\<close>: the request takes the socket.\<close>

definition onSocket :: "agent \<Rightarrow> req \<Rightarrow> sock \<Rightarrow> agent" where
  "onSocket a r s = a\<lparr>assigned := assigned a @ [(r, s)], inUse := insert s (inUse a)\<rparr>"

subsection \<open>The Agent's handler of \<open>free\<close>\<close>

definition onFree :: "agent \<Rightarrow> sock \<Rightarrow> string \<Rightarrow> string \<Rightarrow> string option \<Rightarrow> agent" where
  "onFree a s host port localAddress =
     (let name = getName host port localAddress;
          park = putIdleSocket (removeFromSockets a s name) s name
      in if s \<in> destroyed a then park
         else
           (case requests a name of
              Some (r # rs) \<Rightarrow>
                (let a1 = onSocket (a\<lparr>requests := (requests a)(name \<mapsto> rs)\<rparr>) r s
                 in if rs = [] then a1\<lparr>requests := (requests a1)(name := None)\<rparr> else a1)
            | _ \<Rightarrow> park))"

text \<open>\<open>s.emit('free')\<close>: the listener that \<open>findOrCreateSocket\<close> registered on \<open>s\<close>, if it is
  still there, emits the Agent's \<open>free\<close> with the captured host, port and local address.\<close>

definition emitFree :: "agent \<Rightarrow> sock \<Rightarrow> agent" where
  "emitFree a s =
     (case listeners a s of
        None \<Rightarrow> a
      | Some (name, host, port, localAddress) \<Rightarrow> onFree a s host port localAddress)"

subsection \<open>Admission and removal\<close>

definition addRequest :: "agent \<Rightarrow> req \<Rightarrow> string \<Rightarrow> string \<Rightarrow> string option \<Rightarrow> agent" where
  "addRequest a r host port localAddress =
     (let name = getName host port localAddress;
          a1 = (if sockets a name = None then a\<lparr>sockets := (sockets a)(name \<mapsto> [])\<rparr> else a)
      in if int (length (active a1 name)) < maxSockets a1 then
           (case findOrCreateSocket a1 name host port localAddress (Some r) of
              (s, a2) \<Rightarrow> onSocket a2 r s)
         else
           a1\<lparr>requests := (requests a1)(name \<mapsto> queue a1 name @ [r])\<rparr>)"

definition removeSocket ::
  "agent \<Rightarrow> sock \<Rightarrow> name \<Rightarrow> string \<Rightarrow> string \<Rightarrow> string option \<Rightarrow> agent" where
  "removeSocket a s name host port localAddress =
     (let a1 = removeFromIdleSockets (removeFromSockets a s name) s name
      in case requests a1 name of
           Some (r # rs) \<Rightarrow>
             (case findOrCreateSocket a1 name host port localAddress (Some r) of
                (c, a2) \<Rightarrow> emitFree a2 c)
         | _ \<Rightarrow> a1)"

subsection \<open>The timer's callback\<close>

text \<open>
  The loop over the keys of \<open>idleSockets\<close>, adding the boolean that \<open>validateIdle\<close> returns
  to the number \<open>socketsLeft\<close> (true counts 1, false 0). A key deleted before the loop
  reaches it is not enumerated.
\<close>

fun sweep :: "agent \<Rightarrow> name list \<Rightarrow> nat \<Rightarrow> nat \<times> agent" where
  "sweep a [] socketsLeft = (socketsLeft, a)"
| "sweep a (name # names) socketsLeft =
     (case validateIdle a name of
        None \<Rightarrow> sweep a names socketsLeft
      | Some (b, a1) \<Rightarrow> sweep a1 names (socketsLeft + of_bool b))"

definition validatorTick :: "agent \<Rightarrow> agent" where
  "validatorTick a =
     (let a1 = a\<lparr>validationTimer := False\<rparr>
      in case sweep a1 (map fst (idleSockets a1)) 0 of
           (socketsLeft, a2) \<Rightarrow> if socketsLeft > 0 then setupValidator a2 else a2)"

subsection \<open>Events\<close>

text \<open>
  What reaches the Agent: a call of \<open>addRequest\<close>; a socket emitting \<open>free\<close>, \<open>close\<close> or
  \<open>agentRemove\<close>; a socket becoming destroyed by its own doing; the timeout firing; time
  passing. A socket emits \<open>free\<close> when the request it serves is done, hence only while
  it is in use by one; a \<open>free\<close> from a socket that no request holds does not occur and
  is modelled as no change. The listeners of \<open>close\<close> and \<open>agentRemove\<close> call
  \<open>removeSocket\<close> with the captured values; the \<open>agentRemove\<close> listener then removes the
  three listeners. Nothing is assumed about when a socket emits \<open>close\<close> or
  \<open>agentRemove\<close>: any socket that still carries its listeners may, tracked or not, and in
  particular one that \<open>validateIdle\<close> has destroyed. The timeout fires only while one is
  pending; its delay is not modelled. Time passes by a natural number of milliseconds, so
  the clock never runs backwards.

  \<open>run\<close> applies a sequence of events; \<open>reachable\<close> are the Agents that events lead to
  from a newly constructed one.
\<close>

datatype event =
    AddRequest req string string "string option"
  | SockFree sock
  | SockClose sock
  | SockAgentRemove sock
  | SockDestroyed sock
  | TimerFires
  | Elapse nat

fun step :: "agent \<Rightarrow> event \<Rightarrow> agent" where
  "step a (AddRequest r host port localAddress) = addRequest a r host port localAddress"
| "step a (SockFree s) =
     (if s \<in> inUse a then emitFree (a\<lparr>inUse := inUse a - {s}\<rparr>) s else a)"
| "step a (SockClose s) =
     (case listeners a s of
        None \<Rightarrow> a
      | Some (name, host, port, localAddress) \<Rightarrow> removeSocket a s name host port localAddress)"
| "step a (SockAgentRemove s) =
     (case listeners a s of
        None \<Rightarrow> a
      | Some (name, host, port, localAddress) \<Rightarrow>
          (let a1 = removeSocket a s name host port localAddress
           in a1\<lparr>listeners := (listeners a1)(s := None)\<rparr>))"
| "step a (SockDestroyed s) = a\<lparr>destroyed := insert s (destroyed a)\<rparr>"
| "step a TimerFires =
     (if pendingTimers a > 0 then validatorTick (a\<lparr>pendingTimers := pendingTimers a - 1\<rparr>)
      else a)"
| "step a (Elapse d) = a\<lparr>clock := clock a + int d\<rparr>"

fun run :: "agent \<Rightarrow> event list \<Rightarrow> agent" where
  "run a [] = a"
| "run a (e # es) = run (step a e) es"

inductive reachable :: "agent \<Rightarrow> bool" where
  init: "reachable (Agent opts t0)"
| step: "reachable a \<Longrightarrow> reachable (step a e)"

text \<open>The connection that \<open>removeSocket\<close> obtains for the head request \<open>r\<close> once \<open>s\<close> is
  detached, with the Agent as \<open>findOrCreateSocket\<close> leaves it.\<close>

definition replacement ::
  "agent \<Rightarrow> sock \<Rightarrow> name \<Rightarrow> string \<Rightarrow> string \<Rightarrow> string option \<Rightarrow> req \<Rightarrow> sock \<times> agent" where
  "replacement a s name host port localAddress r =
     findOrCreateSocket (removeFromIdleSockets (removeFromSockets a s name) s name)
       name host port localAddress (Some r)"

subsection \<open>Invariants\<close>

text \<open>
  The sockets the tables hold have been created; no socket stands twice in an active set, nor
  in two idle entries (of one key or of two); an idle socket is not in use by a request; and
  no socket is at once in the active set and the idle list of a key.
\<close>

definition pool_ok :: "agent \<Rightarrow> bool" where
  "pool_ok a \<longleftrightarrow>
     (\<forall>n. \<forall>x \<in> set (active a n). x < nextSock a) \<and>
     (\<forall>n. \<forall>e \<in> set (idle a n). socket e < nextSock a) \<and>
     (\<forall>x \<in> inUse a. x < nextSock a) \<and>
     (\<forall>n. distinct (active a n)) \<and>
     (\<forall>n. distinct (map socket (idle a n))) \<and>
     (\<forall>n n'. n \<noteq> n' \<longrightarrow> socket ` set (idle a n) \<inter> socket ` set (idle a n') = {}) \<and>
     (\<forall>n. socket ` set (idle a n) \<inter> inUse a = {}) \<and>
     (\<forall>n. set (active a n) \<inter> socket ` set (idle a n) = {})"

text \<open>The idle entries of a key are in the order of their expiry, none later than
  \<open>now + keepAlive\<close>.\<close>

definition expiry_ok :: "agent \<Rightarrow> bool" where
  "expiry_ok a \<longleftrightarrow>
     (\<forall>n. sorted (map validTill (idle a n)) \<and>
          (\<forall>e \<in> set (idle a n). validTill e \<le> clock a + keepAlive a))"

text \<open>The property \<open>validationTimer\<close> is present exactly while one timeout is pending.\<close>

definition timer_ok :: "agent \<Rightarrow> bool" where
  "timer_ok a \<longleftrightarrow> pendingTimers a = (if validationTimer a then 1 else 0)"

text \<open>The keys of the object \<open>idleSockets\<close> are distinct.\<close>

definition keys_ok :: "agent \<Rightarrow> bool" where
  "keys_ok a \<longleftrightarrow> distinct (map fst (idleSockets a))"

text \<open>The three together.\<close>

definition aux_ok :: "agent \<Rightarrow> bool" where
  "aux_ok a \<longleftrightarrow> expiry_ok a \<and> timer_ok a \<and> keys_ok a"

text \<open>The closures registered on a socket capture the key of their own host, port and local
  address; only created sockets carry listeners; and a socket in the idle list of a key still
  carries the listeners registered for that key.\<close>

definition listen_ok :: "agent \<Rightarrow> bool" where
  "listen_ok a \<longleftrightarrow>
     (\<forall>s n h p l. listeners a s = Some (n, h, p, l) \<longrightarrow> n = getName h p l \<and> s < nextSock a) \<and>
     (\<forall>n. \<forall>e \<in> set (idle a n). \<exists>h p l. listeners a (socket e) = Some (n, h, p, l))"

text \<open>How one transition may change the wait queue of a key: not at all (requests may be
  served directly meanwhile), by one request appended at the back, or by the request at the
  front taken off and given a socket.\<close>

definition fifo_move :: "agent \<Rightarrow> agent \<Rightarrow> name \<Rightarrow> bool" where
  "fifo_move a b n \<longleftrightarrow>
     (queue b n = queue a n \<and> (\<exists>xs. assigned b = assigned a @ xs)) \<or>
     (\<exists>r. queue b n = queue a n @ [r] \<and> assigned b = assigned a) \<or>
     (\<exists>r c. queue a n = r # queue b n \<and> assigned b = assigned a @ [(r, c)])"

subsection \<open>Scenarios\<close>

text \<open>Option sets and event sequences used to exercise the theorems on concrete agents.\<close>

definition opts1 :: options where
  "opts1 = \<lparr>opt_maxSockets = Some 1, opt_keepAlive = Some 10\<rparr>"

definition opts2 :: options where
  "opts2 = \<lparr>opt_maxSockets = Some 2, opt_keepAlive = None\<rparr>"

definition dead_free_state :: agent where
  "dead_free_state = run (Agent opts2 0) [AddRequest 1 ''h'' ''80'' None, SockDestroyed 0]"

definition one_idle_state :: agent where
  "one_idle_state = run (Agent opts2 0) [AddRequest 1 ''h'' ''80'' None, SockFree 0, Elapse 500]"

definition expired_idle_state :: agent where
  "expired_idle_state = run (Agent opts1 0) [AddRequest 1 ''h'' ''80'' None, SockFree 0, Elapse 11]"

definition two_idle_state :: agent where
  "two_idle_state = run (Agent opts2 0)
     [AddRequest 1 ''h'' ''80'' None, AddRequest 2 ''h'' ''80'' None, SockFree 0, SockFree 1]"

definition mixed_state :: agent where
  "mixed_state = run (Agent opts2 0)
     [AddRequest 1 ''h'' ''80'' None, AddRequest 2 ''h'' ''80'' None, SockFree 0]"

definition stale_close_trace :: "event list" where
  "stale_close_trace =
     [AddRequest 1 ''h'' ''80'' None, SockFree 0, Elapse 11,
      AddRequest 2 ''h'' ''80'' None, AddRequest 3 ''h'' ''80'' None, SockClose 0]"

definition opts3 :: options where
  "opts3 = \<lparr>opt_maxSockets = Some 2, opt_keepAlive = Some 10\<rparr>"

definition half_expired_state :: agent where
  "half_expired_state = run (Agent opts3 0)
     [AddRequest 1 ''h'' ''80'' None, AddRequest 2 ''h'' ''80'' None, SockFree 0, Elapse 5,
      SockFree 1, Elapse 7]"

definition dead_reuse_state :: agent where
  "dead_reuse_state = run (Agent opts2 0)
     [AddRequest 1 ''h'' ''80'' None, AddRequest 2 ''h'' ''80'' None,
      AddRequest 3 ''h'' ''80'' None, SockDestroyed 0, SockFree 0]"

definition saturated_state :: agent where
  "saturated_state = run (Agent opts1 0) [AddRequest 1 ''h'' ''80'' None]"

definition one_waiting_state :: agent where
  "one_waiting_state = run (Agent opts1 0)
     [AddRequest 1 ''h'' ''80'' None, AddRequest 2 ''h'' ''80'' None]"

definition idle_beside_waiting_state :: agent where
  "idle_beside_waiting_state = run (Agent opts1 0)
     (stale_close_trace @ [SockFree 1, AddRequest 4 ''h'' ''80'' None])"

section \<open>How each operation changes the tables\<close>

text \<open>
  For each operation, what the three views and the other fields are afterwards, in terms of
  what they were before. The later sections use these equations and no longer unfold the
  operations.
\<close>

lemma idle_update [simp]:
  "idle (a\<lparr>idleSockets := AList.update k es (idleSockets a)\<rparr>) n = (if n = k then es else idle a n)"
  by (simp add: idle_def update_conv')

lemma idle_delete [simp]:
  "idle (a\<lparr>idleSockets := AList.delete k (idleSockets a)\<rparr>) n = (if n = k then [] else idle a n)"
  by (simp add: idle_def delete_conv')

lemma spliceSocket_notin: "s \<notin> socket ` set es \<Longrightarrow> spliceSocket s es = es"
  by (induction es) auto

lemma set_spliceSocket: "set (spliceSocket s es) \<subseteq> set es"
  by (induction es) auto

lemma distinct_spliceSocket:
  "distinct (map socket es) \<Longrightarrow> distinct (map socket (spliceSocket s es))"
proof (induction es)
  case Nil
  then show ?case by simp
next
  case (Cons e es)
  have "socket ` set (spliceSocket s es) \<subseteq> socket ` set es"
    using set_spliceSocket [of s es] by blast
  with Cons show ?case by auto
qed

lemma spliceSocket_gone:
  "distinct (map socket es) \<Longrightarrow> s \<notin> socket ` set (spliceSocket s es)"
proof (induction es)
  case Nil
  then show ?case by simp
next
  case (Cons e es)
  then show ?case by (auto simp: rev_image_eqI)
qed

lemma sorted_spliceSocket:
  "sorted (map validTill es) \<Longrightarrow> sorted (map validTill (spliceSocket s es))"
proof (induction es)
  case Nil
  then show ?case by simp
next
  case (Cons e es)
  have "set (spliceSocket s es) \<subseteq> set es"
    by (rule set_spliceSocket)
  with Cons show ?case by auto
qed

subsection \<open>removeFromSockets\<close>

lemma removeFromSockets_active [simp]:
  "active (removeFromSockets a s name) n =
     (if n = name then remove1 s (active a name) else active a n)"
  by (auto simp: removeFromSockets_def active_def Let_def remove1_idem split: option.splits)

lemma removeFromSockets_frame [simp]:
  "idleSockets (removeFromSockets a s name) = idleSockets a"
  "requests (removeFromSockets a s name) = requests a"
  "maxSockets (removeFromSockets a s name) = maxSockets a"
  "keepAlive (removeFromSockets a s name) = keepAlive a"
  "validationTimer (removeFromSockets a s name) = validationTimer a"
  "nextSock (removeFromSockets a s name) = nextSock a"
  "listeners (removeFromSockets a s name) = listeners a"
  "destroyed (removeFromSockets a s name) = destroyed a"
  "assigned (removeFromSockets a s name) = assigned a"
  "inUse (removeFromSockets a s name) = inUse a"
  "pendingTimers (removeFromSockets a s name) = pendingTimers a"
  "clock (removeFromSockets a s name) = clock a"
  by (simp_all add: removeFromSockets_def Let_def split: option.splits)

lemma removeFromSockets_idle [simp]: "idle (removeFromSockets a s name) n = idle a n"
  by (simp add: idle_def)

lemma removeFromSockets_queue [simp]: "queue (removeFromSockets a s name) n = queue a n"
  by (simp add: queue_def)

subsection \<open>removeFromIdleSockets\<close>

lemma removeFromIdleSockets_idle [simp]:
  "idle (removeFromIdleSockets a s name) n =
     (if n = name then spliceSocket s (idle a name) else idle a n)"
  by (auto simp: removeFromIdleSockets_def Let_def spliceSocket_notin idle_def
        update_conv' delete_conv' split: option.splits)

lemma removeFromIdleSockets_frame [simp]:
  "sockets (removeFromIdleSockets a s name) = sockets a"
  "requests (removeFromIdleSockets a s name) = requests a"
  "maxSockets (removeFromIdleSockets a s name) = maxSockets a"
  "keepAlive (removeFromIdleSockets a s name) = keepAlive a"
  "validationTimer (removeFromIdleSockets a s name) = validationTimer a"
  "nextSock (removeFromIdleSockets a s name) = nextSock a"
  "listeners (removeFromIdleSockets a s name) = listeners a"
  "destroyed (removeFromIdleSockets a s name) = destroyed a"
  "assigned (removeFromIdleSockets a s name) = assigned a"
  "inUse (removeFromIdleSockets a s name) = inUse a"
  "pendingTimers (removeFromIdleSockets a s name) = pendingTimers a"
  "clock (removeFromIdleSockets a s name) = clock a"
  by (simp_all add: removeFromIdleSockets_def Let_def split: option.splits)

lemma removeFromIdleSockets_active [simp]: "active (removeFromIdleSockets a s name) n = active a n"
  by (simp add: active_def)

lemma removeFromIdleSockets_queue [simp]: "queue (removeFromIdleSockets a s name) n = queue a n"
  by (simp add: queue_def)

lemma removeFromIdleSockets_keys:
  "distinct (map fst (idleSockets a)) \<Longrightarrow>
   distinct (map fst (idleSockets (removeFromIdleSockets a s name)))"
  by (simp add: removeFromIdleSockets_def Let_def distinct_update distinct_delete
        split: option.splits)

subsection \<open>setupValidator, putIdleSocket\<close>

lemma setupValidator_frame [simp]:
  "idleSockets (setupValidator a) = idleSockets a"
  "sockets (setupValidator a) = sockets a"
  "requests (setupValidator a) = requests a"
  "maxSockets (setupValidator a) = maxSockets a"
  "keepAlive (setupValidator a) = keepAlive a"
  "nextSock (setupValidator a) = nextSock a"
  "listeners (setupValidator a) = listeners a"
  "destroyed (setupValidator a) = destroyed a"
  "assigned (setupValidator a) = assigned a"
  "inUse (setupValidator a) = inUse a"
  "clock (setupValidator a) = clock a"
  by (simp_all add: setupValidator_def)

lemma setupValidator_timer [simp]: "validationTimer (setupValidator a)"
  by (simp add: setupValidator_def)

lemma setupValidator_views [simp]:
  "idle (setupValidator a) n = idle a n"
  "active (setupValidator a) n = active a n"
  "queue (setupValidator a) n = queue a n"
  by (simp_all add: idle_def active_def queue_def)

lemma putIdleSocket_idle [simp]:
  "idle (putIdleSocket a s name) n =
     (if n = name then idle a name @ [\<lparr>socket = s, validTill = clock a + keepAlive a\<rparr>]
      else idle a n)"
  by (simp add: putIdleSocket_def Let_def idle_def update_conv')

lemma putIdleSocket_frame [simp]:
  "sockets (putIdleSocket a s name) = sockets a"
  "requests (putIdleSocket a s name) = requests a"
  "maxSockets (putIdleSocket a s name) = maxSockets a"
  "keepAlive (putIdleSocket a s name) = keepAlive a"
  "nextSock (putIdleSocket a s name) = nextSock a"
  "listeners (putIdleSocket a s name) = listeners a"
  "destroyed (putIdleSocket a s name) = destroyed a"
  "assigned (putIdleSocket a s name) = assigned a"
  "inUse (putIdleSocket a s name) = inUse a"
  "clock (putIdleSocket a s name) = clock a"
  by (simp_all add: putIdleSocket_def Let_def)

lemma putIdleSocket_timer [simp]: "validationTimer (putIdleSocket a s name)"
  by (simp add: putIdleSocket_def Let_def)

lemma putIdleSocket_views [simp]:
  "active (putIdleSocket a s name) n = active a n"
  "queue (putIdleSocket a s name) n = queue a n"
  by (simp_all add: active_def queue_def)

lemma putIdleSocket_keys:
  "distinct (map fst (idleSockets a)) \<Longrightarrow> distinct (map fst (idleSockets (putIdleSocket a s name)))"
  by (simp add: putIdleSocket_def Let_def distinct_update)

subsection \<open>validateIdle\<close>


lemma validateIdle_None: "validateIdle a name = None \<longleftrightarrow> map_of (idleSockets a) name = None"
  by (simp add: validateIdle_def Let_def split: option.splits)

lemma validateIdle_eq:
  assumes "map_of (idleSockets a) name = Some es"
  shows "validateIdle a name =
     Some (dropWhile (expired a) es \<noteq> [],
           if takeWhile (expired a) es = [] then a
           else if dropWhile (expired a) es = []
             then a\<lparr>destroyed := destroyed a \<union> socket ` set (takeWhile (expired a) es),
                    idleSockets := AList.delete name (idleSockets a)\<rparr>
             else a\<lparr>destroyed := destroyed a \<union> socket ` set (takeWhile (expired a) es),
                    idleSockets := AList.update name (dropWhile (expired a) es) (idleSockets a)\<rparr>)"
proof -
  define tk where "tk = takeWhile (expired a) es"
  define dk where "dk = dropWhile (expired a) es"
  have f: "(\<lambda>e. validTill e < clock a) = expired a"
    by (simp add: expired_def fun_eq_iff)
  have t: "take (length tk) es = tk"
    unfolding tk_def by (simp add: takeWhile_eq_take [symmetric])
  have d: "drop (length tk) es = dk"
    unfolding tk_def dk_def by (simp add: dropWhile_eq_drop [symmetric])
  have e0: "tk = [] \<Longrightarrow> dk = es"
    unfolding tk_def dk_def by (metis takeWhile_dropWhile_id append_Nil)
  have "validateIdle a name =
     Some (dk \<noteq> [],
           if tk = [] then a
           else if dk = []
             then a\<lparr>destroyed := destroyed a \<union> socket ` set tk,
                    idleSockets := AList.delete name (idleSockets a)\<rparr>
             else a\<lparr>destroyed := destroyed a \<union> socket ` set tk,
                    idleSockets := AList.update name dk (idleSockets a)\<rparr>)"
    apply (simp only: validateIdle_def assms option.case Let_def f)
    apply (fold tk_def)
    using e0 apply (simp add: t d)
    done
  then show ?thesis
    unfolding tk_def dk_def .
qed

lemma validateIdle_Some:
  assumes "validateIdle a name = Some (b, a')"
  shows "b = (reusable a name \<noteq> [])"
    and "idle a' n = (if n = name then reusable a name else idle a n)"
    and "destroyed a' = destroyed a \<union> socket ` set (stale a name)"
    and "sockets a' = sockets a" and "requests a' = requests a"
    and "maxSockets a' = maxSockets a" and "keepAlive a' = keepAlive a"
    and "validationTimer a' = validationTimer a" and "nextSock a' = nextSock a"
    and "listeners a' = listeners a" and "assigned a' = assigned a"
    and "inUse a' = inUse a" and "pendingTimers a' = pendingTimers a"
    and "clock a' = clock a"
proof -
  obtain es where es: "map_of (idleSockets a) name = Some es"
    using assms by (auto simp: validateIdle_def split: option.splits)
  define tk where "tk = takeWhile (expired a) es"
  define dk where "dk = dropWhile (expired a) es"
  have i: "idle a name = es"
    using es by (simp add: idle_def)
  have e0: "tk = [] \<Longrightarrow> dk = es"
    unfolding tk_def dk_def by (metis takeWhile_dropWhile_id append_Nil)
  note v = assms [unfolded validateIdle_eq [OF es], folded tk_def dk_def]
  from v show "b = (reusable a name \<noteq> [])"
    unfolding reusable_def i dk_def [symmetric] by simp
  from v have a': "a' = (if tk = [] then a
           else if dk = []
             then a\<lparr>destroyed := destroyed a \<union> socket ` set tk,
                    idleSockets := AList.delete name (idleSockets a)\<rparr>
             else a\<lparr>destroyed := destroyed a \<union> socket ` set tk,
                    idleSockets := AList.update name dk (idleSockets a)\<rparr>)"
    by simp
  have "idle a' n = (if n = name then dk else idle a n)"
    unfolding a' using e0 i by (simp add: idle_def update_conv' delete_conv')
  then show "idle a' n = (if n = name then reusable a name else idle a n)"
    unfolding reusable_def i dk_def .
  have "destroyed a' = destroyed a \<union> socket ` set tk"
    unfolding a' by simp
  then show "destroyed a' = destroyed a \<union> socket ` set (stale a name)"
    unfolding stale_def i tk_def .
  show "sockets a' = sockets a" "requests a' = requests a"
    "maxSockets a' = maxSockets a" "keepAlive a' = keepAlive a"
    "validationTimer a' = validationTimer a" "nextSock a' = nextSock a"
    "listeners a' = listeners a" "assigned a' = assigned a"
    "inUse a' = inUse a" "pendingTimers a' = pendingTimers a"
    "clock a' = clock a"
    unfolding a' by simp_all
qed

lemma validateIdle_keys:
  "validateIdle a name = Some (b, a') \<Longrightarrow> distinct (map fst (idleSockets a)) \<Longrightarrow>
   distinct (map fst (idleSockets a'))"
  by (auto simp: validateIdle_def Let_def distinct_update distinct_delete
        split: option.splits if_splits)

lemma idle_None: "map_of (idleSockets a) n = None \<Longrightarrow> idle a n = []"
  by (simp add: idle_def)

lemma idle_Some: "map_of (idleSockets a) n = Some es \<Longrightarrow> idle a n = es"
  by (simp add: idle_def)

lemma active_Some: "sockets a n = Some xs \<Longrightarrow> active a n = xs"
  by (simp add: active_def)

lemma queue_Some: "requests a n = Some rs \<Longrightarrow> queue a n = rs"
  by (simp add: queue_def)

subsection \<open>findIdleSocket, findOrCreateSocket\<close>

text \<open>Both are decided by the entries that the validation leaves: none, or a first one and
  the rest.\<close>

lemma findIdleSocket_empty:
  assumes "reusable a name = []"
  shows "\<exists>a'. findIdleSocket a name = (None, a') \<and>
           (\<forall>n. idle a' n = (if n = name then [] else idle a n)) \<and>
           destroyed a' = destroyed a \<union> socket ` set (stale a name) \<and>
           sockets a' = sockets a \<and> requests a' = requests a \<and>
           maxSockets a' = maxSockets a \<and> keepAlive a' = keepAlive a \<and>
           validationTimer a' = validationTimer a \<and> nextSock a' = nextSock a \<and>
           listeners a' = listeners a \<and> assigned a' = assigned a \<and>
           inUse a' = inUse a \<and> pendingTimers a' = pendingTimers a \<and> clock a' = clock a"
proof (cases "map_of (idleSockets a) name")
  case None
  then have "findIdleSocket a name = (None, a)"
    by (simp add: findIdleSocket_def)
  moreover have "idle a name = []"
    using None by (rule idle_None)
  ultimately show ?thesis
    by (simp add: stale_def)
next
  case (Some es)
  then obtain b a1 where v: "validateIdle a name = Some (b, a1)"
    using validateIdle_None [of a name] by (cases "validateIdle a name") auto
  note vs = validateIdle_Some [OF v]
  have "\<not> b"
    using vs(1) assms by simp
  then have "findIdleSocket a name = (None, a1)"
    using Some v by (simp add: findIdleSocket_def)
  then show ?thesis
    using vs(2-) assms by simp
qed

lemma findIdleSocket_reuse:
  assumes "reusable a name = e # rest"
  shows "\<exists>a'. findIdleSocket a name = (Some (socket e), a') \<and>
           (\<forall>n. idle a' n = (if n = name then rest else idle a n)) \<and>
           (\<forall>n. active a' n = (if n = name then active a name @ [socket e] else active a n)) \<and>
           map_of (idleSockets a') name = Some rest \<and>
           destroyed a' = destroyed a \<union> socket ` set (stale a name) \<and>
           requests a' = requests a \<and>
           maxSockets a' = maxSockets a \<and> keepAlive a' = keepAlive a \<and>
           validationTimer a' = validationTimer a \<and> nextSock a' = nextSock a \<and>
           listeners a' = listeners a \<and> assigned a' = assigned a \<and>
           inUse a' = inUse a \<and> pendingTimers a' = pendingTimers a \<and> clock a' = clock a"
proof -
  have ne: "idle a name \<noteq> []"
    using assms by (auto simp: reusable_def)
  then obtain es where es: "map_of (idleSockets a) name = Some es"
    by (auto simp: idle_def split: option.splits)
  then obtain b a1 where v: "validateIdle a name = Some (b, a1)"
    using validateIdle_None [of a name] by (cases "validateIdle a name") auto
  note vs = validateIdle_Some [OF v]
  have b: "b"
    using vs(1) assms by simp
  have i1: "idle a1 name = e # rest"
    using vs(2) [of name] assms by simp
  then have m1: "map_of (idleSockets a1) name = Some (e # rest)"
    by (auto simp: idle_def split: option.splits)
  define a2 where "a2 = a1\<lparr>idleSockets := AList.update name rest (idleSockets a1)\<rparr>"
  define a3 where "a3 = a2\<lparr>sockets := (sockets a2)(name \<mapsto>
      (case sockets a2 name of None \<Rightarrow> [] | Some xs \<Rightarrow> xs) @ [socket e])\<rparr>"
  have f: "findIdleSocket a name = (Some (socket e), a3)"
    using es v b m1 by (simp add: findIdleSocket_def a3_def a2_def Let_def)
  have "\<forall>n. idle a3 n = (if n = name then rest else idle a n)"
    using vs(2) by (simp add: a3_def a2_def idle_def update_conv')
  moreover have "\<forall>n. active a3 n = (if n = name then active a name @ [socket e] else active a n)"
    using vs(4) by (simp add: a3_def a2_def active_def)
  moreover have "map_of (idleSockets a3) name = Some rest"
    by (simp add: a3_def a2_def update_conv')
  moreover have "destroyed a3 = destroyed a \<union> socket ` set (stale a name)"
    using vs(3) by (simp add: a3_def a2_def)
  moreover have "requests a3 = requests a \<and>
           maxSockets a3 = maxSockets a \<and> keepAlive a3 = keepAlive a \<and>
           validationTimer a3 = validationTimer a \<and> nextSock a3 = nextSock a \<and>
           listeners a3 = listeners a \<and> assigned a3 = assigned a \<and>
           inUse a3 = inUse a \<and> pendingTimers a3 = pendingTimers a \<and> clock a3 = clock a"
    using vs(5-) by (simp add: a3_def a2_def)
  ultimately show ?thesis
    using f by blast
qed

lemma findOrCreateSocket_reuse:
  assumes "reusable a name = e # rest"
  shows "\<exists>a'. findOrCreateSocket a name host port la r = (socket e, a') \<and>
           (\<forall>n. idle a' n = (if n = name then rest else idle a n)) \<and>
           (\<forall>n. active a' n = (if n = name then active a name @ [socket e] else active a n)) \<and>
           map_of (idleSockets a') name = Some rest \<and>
           destroyed a' = destroyed a \<union> socket ` set (stale a name) \<and>
           requests a' = requests a \<and>
           maxSockets a' = maxSockets a \<and> keepAlive a' = keepAlive a \<and>
           validationTimer a' = validationTimer a \<and> nextSock a' = nextSock a \<and>
           listeners a' = listeners a \<and> assigned a' = assigned a \<and>
           inUse a' = inUse a \<and> pendingTimers a' = pendingTimers a \<and> clock a' = clock a"
proof -
  from findIdleSocket_reuse [OF assms] obtain a' where
    f: "findIdleSocket a name = (Some (socket e), a')" and
    rest: "(\<forall>n. idle a' n = (if n = name then rest else idle a n)) \<and>
           (\<forall>n. active a' n = (if n = name then active a name @ [socket e] else active a n)) \<and>
           map_of (idleSockets a') name = Some rest \<and>
           destroyed a' = destroyed a \<union> socket ` set (stale a name) \<and>
           requests a' = requests a \<and>
           maxSockets a' = maxSockets a \<and> keepAlive a' = keepAlive a \<and>
           validationTimer a' = validationTimer a \<and> nextSock a' = nextSock a \<and>
           listeners a' = listeners a \<and> assigned a' = assigned a \<and>
           inUse a' = inUse a \<and> pendingTimers a' = pendingTimers a \<and> clock a' = clock a"
    by blast
  have "findOrCreateSocket a name host port la r = (socket e, a')"
    using f by (simp add: findOrCreateSocket_def)
  with rest show ?thesis by blast
qed

lemma findOrCreateSocket_create:
  assumes "reusable a name = []"
  shows "\<exists>a'. findOrCreateSocket a name host port la r = (nextSock a, a') \<and>
           (\<forall>n. idle a' n = (if n = name then [] else idle a n)) \<and>
           (\<forall>n. active a' n = (if n = name then active a name @ [nextSock a] else active a n)) \<and>
           nextSock a' = Suc (nextSock a) \<and>
           destroyed a' = (destroyed a \<union> socket ` set (stale a name)) - {nextSock a} \<and>
           listeners a' = (listeners a)(nextSock a \<mapsto> (name, host, port, la)) \<and>
           requests a' = requests a \<and>
           maxSockets a' = maxSockets a \<and> keepAlive a' = keepAlive a \<and>
           validationTimer a' = validationTimer a \<and> assigned a' = assigned a \<and>
           inUse a' = inUse a \<and> pendingTimers a' = pendingTimers a \<and> clock a' = clock a"
proof -
  from findIdleSocket_empty [OF assms] obtain a1 where
    f: "findIdleSocket a name = (None, a1)" and
    i: "\<forall>n. idle a1 n = (if n = name then [] else idle a n)" and
    d: "destroyed a1 = destroyed a \<union> socket ` set (stale a name)" and
    s: "sockets a1 = sockets a" and
    fr: "requests a1 = requests a \<and>
           maxSockets a1 = maxSockets a \<and> keepAlive a1 = keepAlive a \<and>
           validationTimer a1 = validationTimer a \<and> nextSock a1 = nextSock a \<and>
           listeners a1 = listeners a \<and> assigned a1 = assigned a \<and>
           inUse a1 = inUse a \<and> pendingTimers a1 = pendingTimers a \<and> clock a1 = clock a"
    by blast
  define a' where "a' = a1\<lparr>nextSock := Suc (nextSock a1),
                     destroyed := destroyed a1 - {nextSock a1},
                     sockets := (sockets a1)(name \<mapsto>
                        (case sockets a1 name of None \<Rightarrow> [] | Some xs \<Rightarrow> xs) @ [nextSock a1]),
                     listeners := (listeners a1)(nextSock a1 \<mapsto> (name, host, port, la))\<rparr>"
  have "findOrCreateSocket a name host port la r = (nextSock a, a')"
    using f fr by (simp add: findOrCreateSocket_def a'_def Let_def)
  moreover have "\<forall>n. idle a' n = (if n = name then [] else idle a n)"
    using i by (simp add: a'_def idle_def)
  moreover have "\<forall>n. active a' n = (if n = name then active a name @ [nextSock a] else active a n)"
    using s fr by (simp add: a'_def active_def)
  moreover have "nextSock a' = Suc (nextSock a) \<and>
           destroyed a' = (destroyed a \<union> socket ` set (stale a name)) - {nextSock a} \<and>
           listeners a' = (listeners a)(nextSock a \<mapsto> (name, host, port, la)) \<and>
           requests a' = requests a \<and>
           maxSockets a' = maxSockets a \<and> keepAlive a' = keepAlive a \<and>
           validationTimer a' = validationTimer a \<and> assigned a' = assigned a \<and>
           inUse a' = inUse a \<and> pendingTimers a' = pendingTimers a \<and> clock a' = clock a"
    using d fr by (simp add: a'_def)
  ultimately show ?thesis by blast
qed

subsection \<open>onSocket, onFree\<close>

lemma onSocket_views [simp]:
  "idle (onSocket a r s) n = idle a n"
  "active (onSocket a r s) n = active a n"
  "queue (onSocket a r s) n = queue a n"
  "assigned (onSocket a r s) = assigned a @ [(r, s)]"
  "inUse (onSocket a r s) = insert s (inUse a)"
  "idleSockets (onSocket a r s) = idleSockets a"
  "sockets (onSocket a r s) = sockets a"
  "requests (onSocket a r s) = requests a"
  "maxSockets (onSocket a r s) = maxSockets a"
  "keepAlive (onSocket a r s) = keepAlive a"
  "validationTimer (onSocket a r s) = validationTimer a"
  "nextSock (onSocket a r s) = nextSock a"
  "listeners (onSocket a r s) = listeners a"
  "destroyed (onSocket a r s) = destroyed a"
  "pendingTimers (onSocket a r s) = pendingTimers a"
  "clock (onSocket a r s) = clock a"
  by (simp_all add: onSocket_def idle_def active_def queue_def)

lemma queue_Nil_iff: "queue a n = [] \<longleftrightarrow> (requests a n = None \<or> requests a n = Some [])"
  by (auto simp: queue_def split: option.splits)

lemma onFree_serve:
  assumes "s \<notin> destroyed a" and "queue a (getName host port la) = r # rs"
  shows "queue (onFree a s host port la) n = (if n = getName host port la then rs else queue a n)"
    and "requests (onFree a s host port la) (getName host port la) = (if rs = [] then None else Some rs)"
    and "assigned (onFree a s host port la) = assigned a @ [(r, s)]"
    and "inUse (onFree a s host port la) = insert s (inUse a)"
    and "idleSockets (onFree a s host port la) = idleSockets a"
    and "sockets (onFree a s host port la) = sockets a"
    and "maxSockets (onFree a s host port la) = maxSockets a"
    and "keepAlive (onFree a s host port la) = keepAlive a"
    and "validationTimer (onFree a s host port la) = validationTimer a"
    and "nextSock (onFree a s host port la) = nextSock a"
    and "listeners (onFree a s host port la) = listeners a"
    and "destroyed (onFree a s host port la) = destroyed a"
    and "pendingTimers (onFree a s host port la) = pendingTimers a"
    and "clock (onFree a s host port la) = clock a"
proof -
  have q: "requests a (getName host port la) = Some (r # rs)"
    using assms(2) by (auto simp: queue_def split: option.splits)
  define a' where "a' = onFree a s host port la"
  have a': "a' = (let a1 = onSocket (a\<lparr>requests := (requests a)(getName host port la \<mapsto> rs)\<rparr>) r s
                 in if rs = [] then a1\<lparr>requests := (requests a1)(getName host port la := None)\<rparr> else a1)"
    using assms(1) q by (simp add: a'_def onFree_def Let_def)
  show "queue (onFree a s host port la) n = (if n = getName host port la then rs else queue a n)"
    unfolding a'_def [symmetric] a' by (simp add: Let_def queue_def onSocket_def)
  show "requests (onFree a s host port la) (getName host port la) = (if rs = [] then None else Some rs)"
    unfolding a'_def [symmetric] a' by (simp add: Let_def onSocket_def)
  show "assigned (onFree a s host port la) = assigned a @ [(r, s)]"
    "inUse (onFree a s host port la) = insert s (inUse a)"
    "idleSockets (onFree a s host port la) = idleSockets a"
    "sockets (onFree a s host port la) = sockets a"
    "maxSockets (onFree a s host port la) = maxSockets a"
    "keepAlive (onFree a s host port la) = keepAlive a"
    "validationTimer (onFree a s host port la) = validationTimer a"
    "nextSock (onFree a s host port la) = nextSock a"
    "listeners (onFree a s host port la) = listeners a"
    "destroyed (onFree a s host port la) = destroyed a"
    "pendingTimers (onFree a s host port la) = pendingTimers a"
    "clock (onFree a s host port la) = clock a"
    unfolding a'_def [symmetric] a' by (simp_all add: Let_def onSocket_def)
qed

lemma onFree_park:
  assumes "s \<in> destroyed a \<or> queue a (getName host port la) = []"
  shows "onFree a s host port la =
     putIdleSocket (removeFromSockets a s (getName host port la)) s (getName host port la)"
  using assms
  by (auto simp: onFree_def Let_def queue_def split: option.splits list.splits)

section \<open>The pool invariant\<close>

text \<open>Every operation and every event preserves \<open>pool_ok\<close>; hence it holds in every
  reachable state.\<close>

lemma views_inUse_update [simp]:
  "idle (a\<lparr>inUse := X\<rparr>) n = idle a n"
  "active (a\<lparr>inUse := X\<rparr>) n = active a n"
  "queue (a\<lparr>inUse := X\<rparr>) n = queue a n"
  by (simp_all add: idle_def active_def queue_def)

lemma views_pendingTimers_update [simp]:
  "idle (a\<lparr>pendingTimers := X\<rparr>) n = idle a n"
  "active (a\<lparr>pendingTimers := X\<rparr>) n = active a n"
  "queue (a\<lparr>pendingTimers := X\<rparr>) n = queue a n"
  by (simp_all add: idle_def active_def queue_def)

lemma views_validationTimer_update [simp]:
  "idle (a\<lparr>validationTimer := X\<rparr>) n = idle a n"
  "active (a\<lparr>validationTimer := X\<rparr>) n = active a n"
  "queue (a\<lparr>validationTimer := X\<rparr>) n = queue a n"
  by (simp_all add: idle_def active_def queue_def)

lemma views_clock_update [simp]:
  "idle (a\<lparr>clock := X\<rparr>) n = idle a n"
  "active (a\<lparr>clock := X\<rparr>) n = active a n"
  "queue (a\<lparr>clock := X\<rparr>) n = queue a n"
  by (simp_all add: idle_def active_def queue_def)

lemma views_destroyed_update [simp]:
  "idle (a\<lparr>destroyed := X\<rparr>) n = idle a n"
  "active (a\<lparr>destroyed := X\<rparr>) n = active a n"
  "queue (a\<lparr>destroyed := X\<rparr>) n = queue a n"
  by (simp_all add: idle_def active_def queue_def)

lemma views_listeners_update [simp]:
  "idle (a\<lparr>listeners := X\<rparr>) n = idle a n"
  "active (a\<lparr>listeners := X\<rparr>) n = active a n"
  "queue (a\<lparr>listeners := X\<rparr>) n = queue a n"
  by (simp_all add: idle_def active_def queue_def)

lemma views_requests_update [simp]:
  "idle (a\<lparr>requests := X\<rparr>) n = idle a n"
  "active (a\<lparr>requests := X\<rparr>) n = active a n"
  by (simp_all add: idle_def active_def)

lemma views_sockets_update [simp]:
  "idle (a\<lparr>sockets := X\<rparr>) n = idle a n"
  "queue (a\<lparr>sockets := X\<rparr>) n = queue a n"
  by (simp_all add: idle_def queue_def)

text \<open>A state whose views are those of another inherits its invariants.\<close>

lemma pool_ok_cong:
  assumes "pool_ok a"
    and "\<And>n. active b n = active a n" and "\<And>n. idle b n = idle a n"
    and "inUse b = inUse a" and "nextSock b = nextSock a"
  shows "pool_ok b"
  using assms unfolding pool_ok_def by simp

lemma pool_ok_D:
  assumes "pool_ok a"
  shows "x \<in> set (active a n) \<Longrightarrow> x < nextSock a"
    and "e \<in> set (idle a n) \<Longrightarrow> socket e < nextSock a"
    and "x \<in> inUse a \<Longrightarrow> x < nextSock a"
    and "distinct (active a n)"
    and "distinct (map socket (idle a n))"
    and "n \<noteq> n' \<Longrightarrow> socket ` set (idle a n) \<inter> socket ` set (idle a n') = {}"
    and "socket ` set (idle a n) \<inter> inUse a = {}"
    and "set (active a n) \<inter> socket ` set (idle a n) = {}"
  using assms unfolding pool_ok_def by simp_all

lemma pool_ok_subset:
  assumes "pool_ok a"
    and "\<And>n. set (active b n) \<subseteq> set (active a n)" and "\<And>n. distinct (active b n)"
    and "\<And>n. set (idle b n) \<subseteq> set (idle a n)" and "\<And>n. distinct (map socket (idle b n))"
    and "inUse b \<subseteq> inUse a" and "nextSock b = nextSock a"
  shows "pool_ok b"
  unfolding pool_ok_def
proof (intro conjI allI ballI impI)
  fix n x assume "x \<in> set (active b n)"
  with assms(2) have "x \<in> set (active a n)" by blast
  then show "x < nextSock b" using pool_ok_D(1) [OF assms(1)] assms(7) by simp
next
  fix n e assume "e \<in> set (idle b n)"
  with assms(4) have "e \<in> set (idle a n)" by blast
  then show "socket e < nextSock b" using pool_ok_D(2) [OF assms(1)] assms(7) by simp
next
  fix x assume "x \<in> inUse b"
  with assms(6) have "x \<in> inUse a" by blast
  then show "x < nextSock b" using pool_ok_D(3) [OF assms(1)] assms(7) by simp
next
  fix n show "distinct (active b n)" by (rule assms(3))
next
  fix n show "distinct (map socket (idle b n))" by (rule assms(5))
next
  fix n n' :: name assume "n \<noteq> n'"
  then have "socket ` set (idle a n) \<inter> socket ` set (idle a n') = {}"
    using assms(1) unfolding pool_ok_def by blast
  moreover have "socket ` set (idle b n) \<subseteq> socket ` set (idle a n)"
    "socket ` set (idle b n') \<subseteq> socket ` set (idle a n')"
    using assms(4) by blast+
  ultimately show "socket ` set (idle b n) \<inter> socket ` set (idle b n') = {}"
    by blast
next
  fix n
  have "socket ` set (idle a n) \<inter> inUse a = {}"
    using assms(1) unfolding pool_ok_def by blast
  moreover have "socket ` set (idle b n) \<subseteq> socket ` set (idle a n)"
    using assms(4) by blast
  ultimately show "socket ` set (idle b n) \<inter> inUse b = {}"
    using assms(6) by blast
next
  fix n
  have "set (active a n) \<inter> socket ` set (idle a n) = {}"
    using assms(1) unfolding pool_ok_def by blast
  moreover have "socket ` set (idle b n) \<subseteq> socket ` set (idle a n)"
    using assms(4) by blast
  ultimately show "set (active b n) \<inter> socket ` set (idle b n) = {}"
    using assms(2) by blast
qed

lemma distinct_map_dropWhile: "distinct (map f xs) \<Longrightarrow> distinct (map f (dropWhile P xs))"
  by (induction xs) auto

lemma sorted_map_dropWhile: "sorted (map f xs) \<Longrightarrow> sorted (map f (dropWhile P xs))"
  by (induction xs) auto

lemma removeFromSockets_pool:
  assumes p: "pool_ok a"
  shows "pool_ok (removeFromSockets a s name)"
proof (rule pool_ok_subset [OF p])
  fix n
  show "set (active (removeFromSockets a s name) n) \<subseteq> set (active a n)"
    by (simp add: set_remove1_subset)
  show "distinct (active (removeFromSockets a s name) n)"
    using pool_ok_D(4) [OF p, of n] pool_ok_D(4) [OF p, of name] by simp
  show "distinct (map socket (idle (removeFromSockets a s name) n))"
    using pool_ok_D(5) [OF p, of n] by simp
  show "set (idle (removeFromSockets a s name) n) \<subseteq> set (idle a n)"
    by simp
next
  show "inUse (removeFromSockets a s name) \<subseteq> inUse a"
    by simp
  show "nextSock (removeFromSockets a s name) = nextSock a"
    by simp
qed

lemma removeFromIdleSockets_pool:
  assumes p: "pool_ok a"
  shows "pool_ok (removeFromIdleSockets a s name)"
proof (rule pool_ok_subset [OF p])
  fix n
  show "set (idle (removeFromIdleSockets a s name) n) \<subseteq> set (idle a n)"
    by (simp add: set_spliceSocket)
  show "distinct (active (removeFromIdleSockets a s name) n)"
    using pool_ok_D(4) [OF p, of n] by simp
  show "distinct (map socket (idle (removeFromIdleSockets a s name) n))"
    using pool_ok_D(5) [OF p, of n] pool_ok_D(5) [OF p, of name]
    by (simp add: distinct_spliceSocket)
  show "set (active (removeFromIdleSockets a s name) n) \<subseteq> set (active a n)"
    by simp
next
  show "inUse (removeFromIdleSockets a s name) \<subseteq> inUse a"
    by simp
  show "nextSock (removeFromIdleSockets a s name) = nextSock a"
    by simp
qed

lemma validateIdle_pool:
  assumes p: "pool_ok a" and "validateIdle a name = Some (b, a')"
  shows "pool_ok a'"
proof (rule pool_ok_subset [OF p])
  note v = validateIdle_Some [OF assms(2)]
  fix n
  show "set (active a' n) \<subseteq> set (active a n)"
    using v(4) by (simp add: active_def)
  show "distinct (active a' n)"
    using v(4) pool_ok_D(4) [OF p, of n] by (simp add: active_def)
  show "set (idle a' n) \<subseteq> set (idle a n)"
    using v(2) [of n] by (auto simp: reusable_def dest: set_dropWhileD)
  show "distinct (map socket (idle a' n))"
    using v(2) [of n] pool_ok_D(5) [OF p, of n]
    by (auto simp: reusable_def distinct_map_dropWhile)
next
  note v = validateIdle_Some [OF assms(2)]
  show "inUse a' \<subseteq> inUse a" "nextSock a' = nextSock a"
    using v(9,12) by simp_all
qed


lemma pool_ok_push:
  assumes p: "pool_ok a"
    and act: "\<And>n. active b n = (if n = name then active a name @ [c] else active a n)"
    and idl: "\<And>n. set (idle b n) \<subseteq> set (idle a n)"
    and idd: "\<And>n. distinct (map socket (idle b n))"
    and c_new: "c \<notin> set (active a name)"
    and c_idle: "\<And>n. c \<notin> socket ` set (idle b n)"
    and c_lt: "c < nextSock b"
    and nx: "nextSock a \<le> nextSock b"
    and iu: "inUse b = inUse a"
  shows "pool_ok b"
  unfolding pool_ok_def
proof (intro conjI allI ballI impI)
  fix n x assume "x \<in> set (active b n)"
  then have "x = c \<or> x \<in> set (active a n)"
    by (auto simp: act split: if_splits)
  then show "x < nextSock b"
    using c_lt nx pool_ok_D(1) [OF p, of x n] by auto
next
  fix n e assume "e \<in> set (idle b n)"
  with idl have "e \<in> set (idle a n)" by blast
  then show "socket e < nextSock b"
    using nx pool_ok_D(2) [OF p, of e n] by simp
next
  fix x assume "x \<in> inUse b"
  then show "x < nextSock b"
    using nx iu pool_ok_D(3) [OF p, of x] by simp
next
  fix n show "distinct (active b n)"
    using pool_ok_D(4) [OF p, of n] c_new by (auto simp: act)
next
  fix n show "distinct (map socket (idle b n))" by (rule idd)
next
  fix n n' :: name assume "n \<noteq> n'"
  then have "socket ` set (idle a n) \<inter> socket ` set (idle a n') = {}"
    by (rule pool_ok_D(6) [OF p])
  moreover have "socket ` set (idle b n) \<subseteq> socket ` set (idle a n)"
    "socket ` set (idle b n') \<subseteq> socket ` set (idle a n')"
    using idl by blast+
  ultimately show "socket ` set (idle b n) \<inter> socket ` set (idle b n') = {}"
    by blast
next
  fix n
  have "socket ` set (idle a n) \<inter> inUse a = {}"
    by (rule pool_ok_D(7) [OF p])
  moreover have "socket ` set (idle b n) \<subseteq> socket ` set (idle a n)"
    using idl by blast
  ultimately show "socket ` set (idle b n) \<inter> inUse b = {}"
    using iu by blast
next
  fix n
  have "set (active a n) \<inter> socket ` set (idle a n) = {}"
    by (rule pool_ok_D(8) [OF p])
  moreover have "socket ` set (idle b n) \<subseteq> socket ` set (idle a n)"
    using idl by blast
  moreover have "set (active b n) \<subseteq> insert c (set (active a n))"
    by (auto simp: act)
  ultimately show "set (active b n) \<inter> socket ` set (idle b n) = {}"
    using c_idle [of n] by blast
qed

lemma pool_ok_use:
  assumes p: "pool_ok a"
    and act: "\<And>n. active b n = active a n"
    and idl: "\<And>n. idle b n = idle a n"
    and iu: "inUse b = insert c (inUse a)"
    and nx: "nextSock b = nextSock a"
    and c_idle: "\<And>n. c \<notin> socket ` set (idle a n)"
    and c_lt: "c < nextSock a"
  shows "pool_ok b"
  unfolding pool_ok_def
proof (intro conjI allI ballI impI)
  fix n x assume "x \<in> set (active b n)"
  then show "x < nextSock b"
    using pool_ok_D(1) [OF p, of x n] by (simp add: act nx)
next
  fix n e assume "e \<in> set (idle b n)"
  then show "socket e < nextSock b"
    using pool_ok_D(2) [OF p, of e n] by (simp add: idl nx)
next
  fix x assume "x \<in> inUse b"
  then show "x < nextSock b"
    using pool_ok_D(3) [OF p, of x] c_lt by (auto simp: iu nx)
next
  fix n show "distinct (active b n)"
    using pool_ok_D(4) [OF p, of n] by (simp add: act)
next
  fix n show "distinct (map socket (idle b n))"
    using pool_ok_D(5) [OF p, of n] by (simp add: idl)
next
  fix n n' :: name assume "n \<noteq> n'"
  then show "socket ` set (idle b n) \<inter> socket ` set (idle b n') = {}"
    using pool_ok_D(6) [OF p, of n n'] by (simp add: idl)
next
  fix n
  show "socket ` set (idle b n) \<inter> inUse b = {}"
    using pool_ok_D(7) [OF p, of n] c_idle [of n] by (simp add: idl iu)
next
  fix n
  show "set (active b n) \<inter> socket ` set (idle b n) = {}"
    using pool_ok_D(8) [OF p, of n] by (simp add: idl act)
qed

lemma pool_ok_park:
  assumes p: "pool_ok a"
    and s_use: "s \<notin> inUse a"
    and s_idle: "\<And>n. s \<notin> socket ` set (idle a n)"
    and s_lt: "s < nextSock a"
  shows "pool_ok (putIdleSocket (removeFromSockets a s name) s name)"
  unfolding pool_ok_def
proof (intro conjI allI ballI impI)
  let ?b = "putIdleSocket (removeFromSockets a s name) s name"
  fix n x assume "x \<in> set (active ?b n)"
  then have "x \<in> set (active a n)"
    by (auto split: if_splits dest: set_remove1_subset [THEN subsetD])
  then show "x < nextSock ?b"
    using pool_ok_D(1) [OF p, of x n] by simp
next
  let ?b = "putIdleSocket (removeFromSockets a s name) s name"
  fix n e assume "e \<in> set (idle ?b n)"
  then have "socket e = s \<or> e \<in> set (idle a n)"
    by (auto split: if_splits)
  then show "socket e < nextSock ?b"
    using pool_ok_D(2) [OF p, of e n] s_lt by auto
next
  let ?b = "putIdleSocket (removeFromSockets a s name) s name"
  fix x assume "x \<in> inUse ?b"
  then show "x < nextSock ?b"
    using pool_ok_D(3) [OF p, of x] by simp
next
  let ?b = "putIdleSocket (removeFromSockets a s name) s name"
  fix n show "distinct (active ?b n)"
    using pool_ok_D(4) [OF p, of n] by auto
next
  let ?b = "putIdleSocket (removeFromSockets a s name) s name"
  fix n show "distinct (map socket (idle ?b n))"
    using pool_ok_D(5) [OF p, of n] s_idle [of n] by auto
next
  let ?b = "putIdleSocket (removeFromSockets a s name) s name"
  fix n n' :: name assume "n \<noteq> n'"
  then show "socket ` set (idle ?b n) \<inter> socket ` set (idle ?b n') = {}"
    using pool_ok_D(6) [OF p, of n n'] s_idle [of n] s_idle [of n'] by auto
next
  let ?b = "putIdleSocket (removeFromSockets a s name) s name"
  fix n
  show "socket ` set (idle ?b n) \<inter> inUse ?b = {}"
    using pool_ok_D(7) [OF p, of n] s_use by auto
next
  let ?b = "putIdleSocket (removeFromSockets a s name) s name"
  fix n
  have d: "distinct (active a name)"
    by (rule pool_ok_D(4) [OF p])
  have "set (active ?b n) \<subseteq> set (active a n)"
    by (auto dest: set_remove1_subset [THEN subsetD])
  moreover have "n = name \<Longrightarrow> s \<notin> set (active ?b n)"
    using d by simp
  moreover have "socket ` set (idle ?b n) \<subseteq> (if n = name then insert s (socket ` set (idle a n)) else socket ` set (idle a n))"
    by auto
  ultimately show "set (active ?b n) \<inter> socket ` set (idle ?b n) = {}"
    using pool_ok_D(8) [OF p, of n] by (auto split: if_splits)
qed

lemma reusable_sub:
  "set (reusable a n) \<subseteq> set (idle a n)"
  by (auto simp: reusable_def dest: set_dropWhileD)

lemma reusable_distinct:
  "distinct (map socket (idle a n)) \<Longrightarrow> distinct (map socket (reusable a n))"
  by (simp add: reusable_def distinct_map_dropWhile)

lemma findOrCreateSocket_pool:
  assumes p: "pool_ok a"
    and f: "findOrCreateSocket a name host port la r = (c, a')"
  shows "pool_ok a'" and "\<And>n. c \<notin> socket ` set (idle a' n)" and "c < nextSock a'"
    and "c \<notin> inUse a'" and "inUse a' = inUse a" and "c \<in> set (active a' name)"
proof -
  have "pool_ok a' \<and> (\<forall>n. c \<notin> socket ` set (idle a' n)) \<and> c < nextSock a'
      \<and> c \<notin> inUse a' \<and> inUse a' = inUse a \<and> c \<in> set (active a' name)"
  proof (cases "reusable a name")
    case Nil
    from findOrCreateSocket_create [OF Nil, of host port la r] f
    have c: "c = nextSock a"
      and idl: "\<And>n. idle a' n = (if n = name then [] else idle a n)"
      and act: "\<And>n. active a' n = (if n = name then active a name @ [c] else active a n)"
      and nx: "nextSock a' = Suc (nextSock a)"
      and iu: "inUse a' = inUse a"
      by auto
    have ci: "\<And>n. c \<notin> socket ` set (idle a' n)"
    proof
      fix n assume "c \<in> socket ` set (idle a' n)"
      then obtain x where "x \<in> set (idle a n)" "socket x = c"
        by (auto simp: idl split: if_splits)
      then show False
        using pool_ok_D(2) [OF p, of x n] c by simp
    qed
    have cn: "c \<notin> set (active a name)"
      using pool_ok_D(1) [OF p, of c name] c by auto
    have "pool_ok a'"
    proof (rule pool_ok_push [OF p act _ _ cn ci])
      fix n
      show "set (idle a' n) \<subseteq> set (idle a n)" by (simp add: idl)
      show "distinct (map socket (idle a' n))"
        using pool_ok_D(5) [OF p, of n] by (simp add: idl)
    next
      show "c < nextSock a'" "nextSock a \<le> nextSock a'" "inUse a' = inUse a"
        using c nx iu by simp_all
    qed
    moreover have "c \<notin> inUse a'"
      using pool_ok_D(3) [OF p, of c] c iu by auto
    ultimately show ?thesis
      using ci c nx iu act by simp
  next
    case (Cons e rest)
    from findOrCreateSocket_reuse [OF Cons, of host port la r] f
    have c: "c = socket e"
      and idl: "\<And>n. idle a' n = (if n = name then rest else idle a n)"
      and act: "\<And>n. active a' n = (if n = name then active a name @ [c] else active a n)"
      and nx: "nextSock a' = nextSock a"
      and iu: "inUse a' = inUse a"
      by auto
    have e_in: "e \<in> set (idle a name)" and rest_in: "set rest \<subseteq> set (idle a name)"
      using reusable_sub [of a name] Cons by auto
    have d: "distinct (map socket (e # rest))"
      using reusable_distinct [OF pool_ok_D(5) [OF p, of name]] Cons by simp
    have ci: "\<And>n. c \<notin> socket ` set (idle a' n)"
    proof -
      fix n
      show "c \<notin> socket ` set (idle a' n)"
      proof (cases "n = name")
        case True
        then show ?thesis using d c by (simp add: idl)
      next
        case False
        then have "socket ` set (idle a name) \<inter> socket ` set (idle a n) = {}"
          using pool_ok_D(6) [OF p, of name n] by simp
        then show ?thesis
          using e_in c False by (auto simp: idl)
      qed
    qed
    have cn: "c \<notin> set (active a name)"
      using pool_ok_D(8) [OF p, of name] e_in c by auto
    have clt: "c < nextSock a"
      using pool_ok_D(2) [OF p, OF e_in] c by simp
    have "pool_ok a'"
    proof (rule pool_ok_push [OF p act _ _ cn ci])
      fix n
      show "set (idle a' n) \<subseteq> set (idle a n)"
        using rest_in by (simp add: idl)
      show "distinct (map socket (idle a' n))"
        using pool_ok_D(5) [OF p, of n] d by (simp add: idl)
    next
      show "c < nextSock a'" "nextSock a \<le> nextSock a'" "inUse a' = inUse a"
        using clt nx iu by simp_all
    qed
    moreover have "c \<notin> inUse a'"
      using pool_ok_D(7) [OF p, of name] e_in c iu by auto
    ultimately show ?thesis
      using ci clt nx iu act by simp
  qed
  then show "pool_ok a'" and "\<And>n. c \<notin> socket ` set (idle a' n)" and "c < nextSock a'"
    and "c \<notin> inUse a'" and "inUse a' = inUse a" and "c \<in> set (active a' name)"
    by blast+
qed

lemma onSocket_pool:
  assumes "pool_ok a" and "\<And>n. c \<notin> socket ` set (idle a n)" and "c < nextSock a"
  shows "pool_ok (onSocket a r c)"
  by (rule pool_ok_use [OF assms(1) _ _ _ _ assms(2,3)]) simp_all

lemma onFree_pool:
  assumes p: "pool_ok a"
    and s_use: "s \<notin> inUse a"
    and s_idle: "\<And>n. s \<notin> socket ` set (idle a n)"
    and s_lt: "s < nextSock a"
  shows "pool_ok (onFree a s host port la)"
proof (cases "s \<in> destroyed a \<or> queue a (getName host port la) = []")
  case True
  then show ?thesis
    using pool_ok_park [OF p s_use s_idle s_lt] by (simp add: onFree_park)
next
  case False
  then obtain r rs where q: "queue a (getName host port la) = r # rs" and d: "s \<notin> destroyed a"
    by (cases "queue a (getName host port la)") auto
  note v = onFree_serve [OF d q]
  show ?thesis
  proof (rule pool_ok_use [OF p _ _ _ _ s_idle s_lt])
    show "\<And>n. active (onFree a s host port la) n = active a n"
      using v(6) by (simp add: active_def)
    show "\<And>n. idle (onFree a s host port la) n = idle a n"
      using v(5) by (simp add: idle_def)
    show "inUse (onFree a s host port la) = insert s (inUse a)"
      by (rule v(4))
    show "nextSock (onFree a s host port la) = nextSock a"
      by (rule v(10))
  qed
qed

lemma emitFree_pool:
  assumes "pool_ok a" and "s \<notin> inUse a" and "\<And>n. s \<notin> socket ` set (idle a n)"
    and "s < nextSock a"
  shows "pool_ok (emitFree a s)"
  using onFree_pool [OF assms] assms(1)
  by (simp add: emitFree_def split: option.splits prod.splits)

lemma removeSocket_pool:
  assumes p: "pool_ok a"
  shows "pool_ok (removeSocket a s name host port la)"
proof -
  define a1 where "a1 = removeFromIdleSockets (removeFromSockets a s name) s name"
  have p1: "pool_ok a1"
    unfolding a1_def by (intro removeFromIdleSockets_pool removeFromSockets_pool p)
  show ?thesis
  proof (cases "queue a1 name")
    case Nil
    then have "removeSocket a s name host port la = a1"
      by (auto simp: removeSocket_def a1_def [symmetric] Let_def queue_def
            split: option.splits list.splits)
    with p1 show ?thesis by simp
  next
    case (Cons r rs)
    then have q: "requests a1 name = Some (r # rs)"
      by (auto simp: queue_def split: option.splits)
    obtain c a2 where f: "findOrCreateSocket a1 name host port la (Some r) = (c, a2)"
      by (cases "findOrCreateSocket a1 name host port la (Some r)")
    have "removeSocket a s name host port la = emitFree a2 c"
      using q f by (simp add: removeSocket_def a1_def [symmetric] Let_def)
    moreover have "pool_ok (emitFree a2 c)"
      using findOrCreateSocket_pool [OF p1 f] by (intro emitFree_pool)
    ultimately show ?thesis by simp
  qed
qed

lemma addRequest_pool:
  assumes p: "pool_ok a"
  shows "pool_ok (addRequest a r host port la)"
proof -
  define name where "name = getName host port la"
  define a1 where "a1 = (if sockets a name = None then a\<lparr>sockets := (sockets a)(name \<mapsto> [])\<rparr> else a)"
  have v1: "\<And>n. active a1 n = active a n" "\<And>n. idle a1 n = idle a n"
    "inUse a1 = inUse a" "nextSock a1 = nextSock a"
    by (auto simp: a1_def active_def)
  have p1: "pool_ok a1"
    by (rule pool_ok_cong [OF p v1])
  show ?thesis
  proof (cases "int (length (active a1 name)) < maxSockets a1")
    case True
    obtain c a2 where f: "findOrCreateSocket a1 name host port la (Some r) = (c, a2)"
      by (cases "findOrCreateSocket a1 name host port la (Some r)")
    have "addRequest a r host port la = onSocket a2 r c"
      using True f by (simp add: addRequest_def name_def [symmetric] a1_def [symmetric] Let_def)
    moreover have "pool_ok (onSocket a2 r c)"
      using findOrCreateSocket_pool [OF p1 f] by (intro onSocket_pool)
    ultimately show ?thesis by simp
  next
    case False
    then have "addRequest a r host port la =
        a1\<lparr>requests := (requests a1)(name \<mapsto> queue a1 name @ [r])\<rparr>"
      by (simp add: addRequest_def name_def [symmetric] a1_def [symmetric] Let_def)
    moreover have "pool_ok (a1\<lparr>requests := (requests a1)(name \<mapsto> queue a1 name @ [r])\<rparr>)"
      by (rule pool_ok_cong [OF p1]) simp_all
    ultimately show ?thesis by simp
  qed
qed

lemma sweep_pool: "pool_ok a \<Longrightarrow> pool_ok (snd (sweep a ns k))"
proof (induction ns arbitrary: a k)
  case Nil
  then show ?case by simp
next
  case (Cons n ns)
  show ?case
  proof (cases "validateIdle a n")
    case None
    then show ?thesis using Cons by simp
  next
    case (Some ba)
    then obtain b a1 where v: "validateIdle a n = Some (b, a1)"
      by (cases ba) auto
    have "pool_ok a1"
      using Cons.prems v by (rule validateIdle_pool)
    then show ?thesis
      using Cons.IH v by simp
  qed
qed

lemma validatorTick_pool:
  assumes "pool_ok a"
  shows "pool_ok (validatorTick a)"
proof -
  define a1 where "a1 = a\<lparr>validationTimer := False\<rparr>"
  have p1: "pool_ok a1"
    by (rule pool_ok_cong [OF assms]) (simp_all add: a1_def)
  obtain k a2 where sw: "sweep a1 (map fst (idleSockets a1)) 0 = (k, a2)"
    by (cases "sweep a1 (map fst (idleSockets a1)) 0")
  have p2: "pool_ok a2"
    using sweep_pool [OF p1, of "map fst (idleSockets a1)" 0] sw by simp
  have "pool_ok (setupValidator a2)"
    by (rule pool_ok_cong [OF p2]) simp_all
  then show ?thesis
    using p2 sw by (simp add: validatorTick_def a1_def [symmetric] Let_def)
qed

lemma step_pool:
  assumes p: "pool_ok a"
  shows "pool_ok (step a e)"
proof (cases e)
  case (AddRequest r host port la)
  then show ?thesis using addRequest_pool [OF p] by simp
next
  case (SockFree s)
  show ?thesis
  proof (cases "s \<in> inUse a")
    case True
    define a1 where "a1 = a\<lparr>inUse := inUse a - {s}\<rparr>"
    have p1: "pool_ok a1"
      by (rule pool_ok_subset [OF p])
        (use pool_ok_D(4,5) [OF p] in \<open>auto simp: a1_def\<close>)
    have "pool_ok (emitFree a1 s)"
    proof (rule emitFree_pool [OF p1])
      show "s \<notin> inUse a1" by (simp add: a1_def)
      show "\<And>n. s \<notin> socket ` set (idle a1 n)"
        using pool_ok_D(7) [OF p] True by (auto simp: a1_def)
      show "s < nextSock a1"
        using pool_ok_D(3) [OF p True] by (simp add: a1_def)
    qed
    then show ?thesis
      using True SockFree by (simp add: a1_def)
  next
    case False
    then show ?thesis using SockFree p by simp
  qed
next
  case (SockClose s)
  then show ?thesis
    using removeSocket_pool [OF p] p by (simp split: option.splits)
next
  case (SockAgentRemove s)
  show ?thesis
  proof (cases "listeners a s")
    case None
    then show ?thesis using SockAgentRemove p by simp
  next
    case (Some l)
    then obtain name host port la where l: "listeners a s = Some (name, host, port, la)"
      by (cases l) auto
    have "pool_ok ((removeSocket a s name host port la)
        \<lparr>listeners := (listeners (removeSocket a s name host port la))(s := None)\<rparr>)"
      by (rule pool_ok_cong [OF removeSocket_pool [OF p]]) simp_all
    then show ?thesis
      using SockAgentRemove l by (simp add: Let_def)
  qed
next
  case (SockDestroyed s)
  have "pool_ok (a\<lparr>destroyed := insert s (destroyed a)\<rparr>)"
    by (rule pool_ok_cong [OF p]) simp_all
  then show ?thesis using SockDestroyed by simp
next
  case TimerFires
  have "pool_ok (a\<lparr>pendingTimers := pendingTimers a - 1\<rparr>)"
    by (rule pool_ok_cong [OF p]) simp_all
  then show ?thesis
    using TimerFires p validatorTick_pool by simp
next
  case (Elapse d)
  have "pool_ok (a\<lparr>clock := clock a + int d\<rparr>)"
    by (rule pool_ok_cong [OF p]) simp_all
  then show ?thesis using Elapse by simp
qed

lemma Agent_pool: "pool_ok (Agent opts t0)"
  by (simp add: pool_ok_def Agent_def active_def idle_def)

lemma reachable_pool: "reachable a \<Longrightarrow> pool_ok a"
  by (induction rule: reachable.induct) (simp_all add: Agent_pool step_pool)

section \<open>Expiry order, the timer and the keys\<close>

text \<open>The same for \<open>expiry_ok\<close>, \<open>timer_ok\<close> and \<open>keys_ok\<close>, taken together as
  \<open>aux_ok\<close>.\<close>

lemma sorted_map_tl: "sorted (map f (x # xs)) \<Longrightarrow> sorted (map f xs)"
  by simp

lemma expiry_ok_D:
  assumes "expiry_ok a"
  shows "sorted (map validTill (idle a n))"
    and "e \<in> set (idle a n) \<Longrightarrow> validTill e \<le> clock a + keepAlive a"
  using assms unfolding expiry_ok_def by simp_all

lemma expiry_ok_sub:
  assumes e: "expiry_ok a"
    and "\<And>n. sorted (map validTill (idle b n))"
    and "\<And>n. set (idle b n) \<subseteq> set (idle a n)"
    and "clock a + keepAlive a \<le> clock b + keepAlive b"
  shows "expiry_ok b"
  unfolding expiry_ok_def
proof (intro allI conjI ballI)
  fix n show "sorted (map validTill (idle b n))" by (rule assms(2))
next
  fix n x assume "x \<in> set (idle b n)"
  with assms(3) have "x \<in> set (idle a n)" by blast
  then show "validTill x \<le> clock b + keepAlive b"
    using expiry_ok_D(2) [OF e, of x n] assms(4) by simp
qed

lemma aux_ok_I: "expiry_ok a \<Longrightarrow> timer_ok a \<Longrightarrow> keys_ok a \<Longrightarrow> aux_ok a"
  by (simp add: aux_ok_def)

lemma aux_ok_D: assumes "aux_ok a" shows "expiry_ok a" "timer_ok a" "keys_ok a"
  using assms by (simp_all add: aux_ok_def)

lemma aux_ok_cong:
  assumes "aux_ok a" and "idleSockets b = idleSockets a" and "clock b = clock a"
    and "keepAlive b = keepAlive a" and "validationTimer b = validationTimer a"
    and "pendingTimers b = pendingTimers a"
  shows "aux_ok b"
  using assms by (simp add: aux_ok_def expiry_ok_def timer_ok_def keys_ok_def idle_def)

lemma removeFromSockets_aux: "aux_ok a \<Longrightarrow> aux_ok (removeFromSockets a s name)"
  by (erule aux_ok_cong) simp_all

lemma onSocket_aux: "aux_ok a \<Longrightarrow> aux_ok (onSocket a r s)"
  by (erule aux_ok_cong) simp_all

lemma removeFromIdleSockets_aux:
  assumes "aux_ok a"
  shows "aux_ok (removeFromIdleSockets a s name)"
proof (rule aux_ok_I)
  note d = aux_ok_D [OF assms]
  show "expiry_ok (removeFromIdleSockets a s name)"
  proof (rule expiry_ok_sub [OF d(1)])
    fix n
    show "sorted (map validTill (idle (removeFromIdleSockets a s name) n))"
      using expiry_ok_D(1) [OF d(1), of n] expiry_ok_D(1) [OF d(1), of name]
      by (simp add: sorted_spliceSocket)
    show "set (idle (removeFromIdleSockets a s name) n) \<subseteq> set (idle a n)"
      by (simp add: set_spliceSocket)
  qed simp
  show "timer_ok (removeFromIdleSockets a s name)"
    using d(2) by (simp add: timer_ok_def)
  show "keys_ok (removeFromIdleSockets a s name)"
    using d(3) removeFromIdleSockets_keys by (simp add: keys_ok_def)
qed

lemma putIdleSocket_aux:
  assumes "aux_ok a"
  shows "aux_ok (putIdleSocket a s name)"
proof (rule aux_ok_I)
  note d = aux_ok_D [OF assms]
  show "expiry_ok (putIdleSocket a s name)"
    unfolding expiry_ok_def
  proof (intro allI conjI ballI)
    fix n
    show "sorted (map validTill (idle (putIdleSocket a s name) n))"
      using expiry_ok_D(1) [OF d(1), of n] expiry_ok_D(2) [OF d(1), of _ n]
      by (auto simp: sorted_append)
  next
    fix n x assume "x \<in> set (idle (putIdleSocket a s name) n)"
    then show "validTill x \<le> clock (putIdleSocket a s name) + keepAlive (putIdleSocket a s name)"
      using expiry_ok_D(2) [OF d(1), of x n] by (auto split: if_splits)
  qed
  show "timer_ok (putIdleSocket a s name)"
    using d(2) by (simp add: timer_ok_def putIdleSocket_def setupValidator_def Let_def)
  show "keys_ok (putIdleSocket a s name)"
    using d(3) putIdleSocket_keys by (simp add: keys_ok_def)
qed

lemma setupValidator_aux: "aux_ok a \<Longrightarrow> aux_ok (setupValidator a)"
  by (simp add: aux_ok_def expiry_ok_def timer_ok_def keys_ok_def setupValidator_def idle_def)

lemma reusable_sorted:
  "sorted (map validTill (idle a n)) \<Longrightarrow> sorted (map validTill (reusable a n))"
  by (simp add: reusable_def sorted_map_dropWhile)

lemma validateIdle_aux:
  assumes "aux_ok a" and v: "validateIdle a name = Some (b, a')"
  shows "aux_ok a'"
proof (rule aux_ok_I)
  note d = aux_ok_D [OF assms(1)]
  note vs = validateIdle_Some [OF v]
  show "expiry_ok a'"
  proof (rule expiry_ok_sub [OF d(1)])
    fix n
    show "sorted (map validTill (idle a' n))"
      using expiry_ok_D(1) [OF d(1), of n] reusable_sorted [of a name]
      by (auto simp: vs(2))
    show "set (idle a' n) \<subseteq> set (idle a n)"
      using reusable_sub [of a name] by (auto simp: vs(2))
  qed (simp add: vs)
  show "timer_ok a'"
    using d(2) by (simp add: timer_ok_def vs)
  show "keys_ok a'"
    using d(3) validateIdle_keys [OF v] by (simp add: keys_ok_def)
qed

lemma findIdleSocket_keys:
  "keys_ok a \<Longrightarrow> keys_ok (snd (findIdleSocket a name))"
proof (cases "validateIdle a name")
  case None
  assume "keys_ok a"
  with None show ?thesis
    by (simp add: findIdleSocket_def split: option.splits)
next
  case (Some ba)
  assume k: "keys_ok a"
  obtain b a1 where v: "validateIdle a name = Some (b, a1)"
    using Some by (cases ba) auto
  have "keys_ok a1"
    using validateIdle_keys [OF v] k by (simp add: keys_ok_def)
  then show ?thesis
    using v k
    by (auto simp: findIdleSocket_def keys_ok_def Let_def distinct_update
          split: option.splits list.splits)
qed

lemma findOrCreateSocket_keys:
  "keys_ok a \<Longrightarrow> keys_ok (snd (findOrCreateSocket a name host port la r))"
  using findIdleSocket_keys [of a name]
  by (auto simp: findOrCreateSocket_def keys_ok_def Let_def split: prod.splits option.splits)

lemma findOrCreateSocket_aux:
  assumes x: "aux_ok a" and f: "findOrCreateSocket a name host port la r = (c, a')"
  shows "aux_ok a'"
proof (rule aux_ok_I)
  note d = aux_ok_D [OF x]
  have fr: "(\<forall>n. idle a' n = (if n = name then tl (reusable a name) else idle a n))
      \<and> clock a' = clock a \<and> keepAlive a' = keepAlive a
      \<and> validationTimer a' = validationTimer a \<and> pendingTimers a' = pendingTimers a"
  proof (cases "reusable a name")
    case Nil
    from findOrCreateSocket_create [OF Nil, of host port la r] f Nil
    show ?thesis by auto
  next
    case (Cons e rest)
    from findOrCreateSocket_reuse [OF Cons, of host port la r] f Cons
    show ?thesis by auto
  qed
  have srt: "sorted (map validTill (tl (reusable a name)))"
    using reusable_sorted [OF expiry_ok_D(1) [OF d(1), of name]]
    by (cases "reusable a name") simp_all
  have sub: "set (tl (reusable a name)) \<subseteq> set (idle a name)"
    using reusable_sub [of a name] by (cases "reusable a name") auto
  show "expiry_ok a'"
  proof (rule expiry_ok_sub [OF d(1)])
    fix n
    show "sorted (map validTill (idle a' n))"
      using expiry_ok_D(1) [OF d(1), of n] srt fr by auto
    show "set (idle a' n) \<subseteq> set (idle a n)"
      using sub fr by auto
  qed (simp add: fr)
  show "timer_ok a'"
    using d(2) fr by (simp add: timer_ok_def)
  show "keys_ok a'"
    using findOrCreateSocket_keys [OF d(3), of name host port la r] f by simp
qed

lemma onFree_aux:
  assumes x: "aux_ok a"
  shows "aux_ok (onFree a s host port la)"
proof (cases "s \<in> destroyed a \<or> queue a (getName host port la) = []")
  case True
  then show ?thesis
    using putIdleSocket_aux [OF removeFromSockets_aux [OF x]] by (simp add: onFree_park)
next
  case False
  then obtain r rs where q: "queue a (getName host port la) = r # rs" and d: "s \<notin> destroyed a"
    by (cases "queue a (getName host port la)") auto
  note v = onFree_serve [OF d q]
  show ?thesis
    by (rule aux_ok_cong [OF x v(5) v(14) v(8) v(9) v(13)])
qed

lemma emitFree_aux: "aux_ok a \<Longrightarrow> aux_ok (emitFree a s)"
  using onFree_aux by (simp add: emitFree_def split: option.splits prod.splits)

lemma removeSocket_aux:
  assumes x: "aux_ok a"
  shows "aux_ok (removeSocket a s name host port la)"
proof -
  define a1 where "a1 = removeFromIdleSockets (removeFromSockets a s name) s name"
  have x1: "aux_ok a1"
    unfolding a1_def by (intro removeFromIdleSockets_aux removeFromSockets_aux x)
  show ?thesis
  proof (cases "queue a1 name")
    case Nil
    then have "removeSocket a s name host port la = a1"
      by (auto simp: removeSocket_def a1_def [symmetric] Let_def queue_def
            split: option.splits list.splits)
    with x1 show ?thesis by simp
  next
    case (Cons r rs)
    then have q: "requests a1 name = Some (r # rs)"
      by (auto simp: queue_def split: option.splits)
    obtain c a2 where f: "findOrCreateSocket a1 name host port la (Some r) = (c, a2)"
      by (cases "findOrCreateSocket a1 name host port la (Some r)")
    have "removeSocket a s name host port la = emitFree a2 c"
      using q f by (simp add: removeSocket_def a1_def [symmetric] Let_def)
    moreover have "aux_ok (emitFree a2 c)"
      using findOrCreateSocket_aux [OF x1 f] by (rule emitFree_aux)
    ultimately show ?thesis by simp
  qed
qed

lemma addRequest_aux:
  assumes x: "aux_ok a"
  shows "aux_ok (addRequest a r host port la)"
proof -
  define name where "name = getName host port la"
  define a1 where "a1 = (if sockets a name = None then a\<lparr>sockets := (sockets a)(name \<mapsto> [])\<rparr> else a)"
  have x1: "aux_ok a1"
    by (rule aux_ok_cong [OF x]) (simp_all add: a1_def)
  show ?thesis
  proof (cases "int (length (active a1 name)) < maxSockets a1")
    case True
    obtain c a2 where f: "findOrCreateSocket a1 name host port la (Some r) = (c, a2)"
      by (cases "findOrCreateSocket a1 name host port la (Some r)")
    have "addRequest a r host port la = onSocket a2 r c"
      using True f by (simp add: addRequest_def name_def [symmetric] a1_def [symmetric] Let_def)
    moreover have "aux_ok (onSocket a2 r c)"
      using findOrCreateSocket_aux [OF x1 f] by (rule onSocket_aux)
    ultimately show ?thesis by simp
  next
    case False
    then have "addRequest a r host port la =
        a1\<lparr>requests := (requests a1)(name \<mapsto> queue a1 name @ [r])\<rparr>"
      by (simp add: addRequest_def name_def [symmetric] a1_def [symmetric] Let_def)
    moreover have "aux_ok (a1\<lparr>requests := (requests a1)(name \<mapsto> queue a1 name @ [r])\<rparr>)"
      by (rule aux_ok_cong [OF x1]) simp_all
    ultimately show ?thesis by simp
  qed
qed

lemma sweep_aux: "aux_ok a \<Longrightarrow> aux_ok (snd (sweep a ns k))"
proof (induction ns arbitrary: a k)
  case Nil
  then show ?case by simp
next
  case (Cons n ns)
  show ?case
  proof (cases "validateIdle a n")
    case None
    then show ?thesis using Cons by simp
  next
    case (Some ba)
    then obtain b a1 where v: "validateIdle a n = Some (b, a1)"
      by (cases ba) auto
    have "aux_ok a1"
      using Cons.prems v by (rule validateIdle_aux)
    then show ?thesis
      using Cons.IH v by simp
  qed
qed

lemma sweep_timer:
  "validationTimer (snd (sweep a ns k)) = validationTimer a
   \<and> pendingTimers (snd (sweep a ns k)) = pendingTimers a
   \<and> clock (snd (sweep a ns k)) = clock a \<and> keepAlive (snd (sweep a ns k)) = keepAlive a"
proof (induction ns arbitrary: a k)
  case Nil
  then show ?case by simp
next
  case (Cons n ns)
  show ?case
  proof (cases "validateIdle a n")
    case None
    then show ?thesis using Cons by simp
  next
    case (Some ba)
    then obtain b a1 where v: "validateIdle a n = Some (b, a1)"
      by (cases ba) auto
    show ?thesis
      using Cons [of a1] v validateIdle_Some [OF v] by simp
  qed
qed

lemma validatorTick_aux:
  assumes x: "expiry_ok a" "keys_ok a" "pendingTimers a = 0"
  shows "aux_ok (validatorTick a)"
proof -
  define a1 where "a1 = a\<lparr>validationTimer := False\<rparr>"
  have x1: "aux_ok a1"
    using x by (simp add: aux_ok_def expiry_ok_def timer_ok_def keys_ok_def a1_def)
  obtain k a2 where sw: "sweep a1 (map fst (idleSockets a1)) 0 = (k, a2)"
    by (cases "sweep a1 (map fst (idleSockets a1)) 0")
  have x2: "aux_ok a2"
    using sweep_aux [OF x1, of "map fst (idleSockets a1)" 0] sw by simp
  then show ?thesis
    using sw setupValidator_aux [OF x2]
    by (simp add: validatorTick_def a1_def [symmetric] Let_def)
qed

lemma step_aux:
  assumes x: "aux_ok a"
  shows "aux_ok (step a e)"
proof (cases e)
  case (AddRequest r host port la)
  then show ?thesis using addRequest_aux [OF x] by simp
next
  case (SockFree s)
  have "aux_ok (a\<lparr>inUse := inUse a - {s}\<rparr>)"
    by (rule aux_ok_cong [OF x]) simp_all
  then show ?thesis
    using SockFree x emitFree_aux by simp
next
  case (SockClose s)
  then show ?thesis
    using removeSocket_aux [OF x] x by (simp split: option.splits)
next
  case (SockAgentRemove s)
  show ?thesis
  proof (cases "listeners a s")
    case None
    then show ?thesis using SockAgentRemove x by simp
  next
    case (Some l)
    then obtain name host port la where l: "listeners a s = Some (name, host, port, la)"
      by (cases l) auto
    have "aux_ok ((removeSocket a s name host port la)
        \<lparr>listeners := (listeners (removeSocket a s name host port la))(s := None)\<rparr>)"
      by (rule aux_ok_cong [OF removeSocket_aux [OF x]]) simp_all
    then show ?thesis
      using SockAgentRemove l by (simp add: Let_def)
  qed
next
  case (SockDestroyed s)
  have "aux_ok (a\<lparr>destroyed := insert s (destroyed a)\<rparr>)"
    by (rule aux_ok_cong [OF x]) simp_all
  then show ?thesis using SockDestroyed by simp
next
  case TimerFires
  show ?thesis
  proof (cases "pendingTimers a > 0")
    case True
    note d = aux_ok_D [OF x]
    have "aux_ok (validatorTick (a\<lparr>pendingTimers := pendingTimers a - 1\<rparr>))"
    proof (rule validatorTick_aux)
      show "expiry_ok (a\<lparr>pendingTimers := pendingTimers a - 1\<rparr>)"
        using d(1) by (simp add: expiry_ok_def)
      show "keys_ok (a\<lparr>pendingTimers := pendingTimers a - 1\<rparr>)"
        using d(2,3) by (simp add: keys_ok_def)
      show "pendingTimers (a\<lparr>pendingTimers := pendingTimers a - 1\<rparr>) = 0"
        using d(2) True by (simp add: timer_ok_def split: if_splits)
    qed
    then show ?thesis using TimerFires True by simp
  next
    case False
    then show ?thesis using TimerFires x by simp
  qed
next
  case (Elapse d)
  note y = aux_ok_D [OF x]
  have "aux_ok (a\<lparr>clock := clock a + int d\<rparr>)"
  proof (rule aux_ok_I)
    show "expiry_ok (a\<lparr>clock := clock a + int d\<rparr>)"
      by (rule expiry_ok_sub [OF y(1)]) (use expiry_ok_D(1) [OF y(1)] in simp_all)
    show "timer_ok (a\<lparr>clock := clock a + int d\<rparr>)"
      using y(2) by (simp add: timer_ok_def)
    show "keys_ok (a\<lparr>clock := clock a + int d\<rparr>)"
      using y(3) by (simp add: keys_ok_def)
  qed
  then show ?thesis using Elapse by simp
qed

lemma Agent_aux: "aux_ok (Agent opts t0)"
  by (simp add: aux_ok_def expiry_ok_def timer_ok_def keys_ok_def Agent_def idle_def)

lemma reachable_aux: "reachable a \<Longrightarrow> aux_ok a"
  by (induction rule: reachable.induct) (simp_all add: Agent_aux step_aux)

section \<open>The sweep and the order of expiry\<close>

text \<open>What the loop of the timer's callback computes over distinct keys, and what the
  expired entries at the front of a list ordered by \<open>validTill\<close> are.\<close>

lemma expired_cong: "clock b = clock a \<Longrightarrow> expired b = expired a"
  by (simp add: expired_def fun_eq_iff)

lemma sweep_count:
  "distinct ns \<Longrightarrow>
   fst (sweep a ns k) = k + length (filter (\<lambda>n. reusable a n \<noteq> []) ns)
   \<and> (\<forall>n. idle (snd (sweep a ns k)) n = (if n \<in> set ns then reusable a n else idle a n))"
proof (induction ns arbitrary: a k)
  case Nil
  then show ?case by simp
next
  case (Cons m ns)
  then have dn: "distinct ns" and mn: "m \<notin> set ns"
    by simp_all
  show ?case
  proof (cases "validateIdle a m")
    case None
    then have "idle a m = []"
      by (simp add: validateIdle_None idle_None)
    then have r: "reusable a m = []"
      by (simp add: reusable_def)
    show ?thesis
      using Cons.IH [OF dn, of a k] None r mn \<open>idle a m = []\<close> by auto
  next
    case (Some ba)
    then obtain b a1 where v: "validateIdle a m = Some (b, a1)"
      by (cases ba) auto
    note vs = validateIdle_Some [OF v]
    have ex: "expired a1 = expired a"
      using vs(14) by (rule expired_cong)
    have r1: "\<And>n. n \<noteq> m \<Longrightarrow> reusable a1 n = reusable a n"
      by (simp add: reusable_def ex vs(2))
    have r2: "\<forall>n \<in> set ns. reusable a1 n = reusable a n"
      using mn r1 by metis
    then have fl: "filter (\<lambda>n. reusable a1 n \<noteq> []) ns = filter (\<lambda>n. reusable a n \<noteq> []) ns"
      by (intro filter_cong) simp_all
    from Cons.IH [OF dn, of a1 "k + of_bool b"]
    have ih1: "fst (sweep a1 ns (k + of_bool b)) =
        k + of_bool b + length (filter (\<lambda>n. reusable a1 n \<noteq> []) ns)"
      and ih2: "\<And>n. idle (snd (sweep a1 ns (k + of_bool b))) n =
         (if n \<in> set ns then reusable a1 n else idle a1 n)"
      by simp_all
    have "fst (sweep a (m # ns) k) =
        k + length (filter (\<lambda>n. reusable a n \<noteq> []) (m # ns))"
      using v ih1 fl vs(1) by simp
    moreover have "\<forall>n. idle (snd (sweep a (m # ns) k)) n =
        (if n \<in> set (m # ns) then reusable a n else idle a n)"
    proof
      fix n
      show "idle (snd (sweep a (m # ns) k)) n =
        (if n \<in> set (m # ns) then reusable a n else idle a n)"
      proof (cases "n \<in> set ns")
        case True
        then show ?thesis using v ih2 [of n] r2 by simp
      next
        case False
        then show ?thesis using v ih2 [of n] vs(2) [of n] by simp
      qed
    qed
    ultimately show ?thesis by blast
  qed
qed

lemma sorted_takeWhile_filter:
  "sorted (map f xs) \<Longrightarrow> takeWhile (\<lambda>x. f x < (t::int)) xs = filter (\<lambda>x. f x < t) xs"
proof (induction xs)
  case Nil
  then show ?case by simp
next
  case (Cons x xs)
  show ?case
  proof (cases "f x < t")
    case True
    with Cons show ?thesis by simp
  next
    case False
    have "\<forall>y \<in> set xs. \<not> f y < t"
      using Cons.prems False by auto
    then have "filter (\<lambda>x. f x < t) xs = []"
      by (simp add: filter_empty_conv)
    with False show ?thesis by simp
  qed
qed

lemma sorted_dropWhile_filter:
  "sorted (map f xs) \<Longrightarrow> dropWhile (\<lambda>x. f x < (t::int)) xs = filter (\<lambda>x. \<not> f x < t) xs"
proof (induction xs)
  case Nil
  then show ?case by simp
next
  case (Cons x xs)
  show ?case
  proof (cases "f x < t")
    case True
    with Cons show ?thesis by simp
  next
    case False
    have "\<forall>y \<in> set xs. \<not> f y < t"
      using Cons.prems False by auto
    then have "filter (\<lambda>x. \<not> f x < t) xs = xs"
      by (simp add: filter_id_conv)
    with False show ?thesis by simp
  qed
qed

section \<open>The listeners of idle sockets\<close>

text \<open>Every event preserves \<open>listen_ok\<close>. The case that needs care is \<open>agentRemove\<close>, which
  removes the listeners of a socket: by then \<open>removeSocket\<close> has taken the socket out of
  every idle list (\<open>removeSocket_gone\<close>).\<close>

lemma listen_ok_D:
  assumes "listen_ok a"
  shows "listeners a s = Some (n, h, p, l) \<Longrightarrow> n = getName h p l"
    and "listeners a s = Some (n, h, p, l) \<Longrightarrow> s < nextSock a"
    and "e \<in> set (idle a n) \<Longrightarrow> \<exists>h p l. listeners a (socket e) = Some (n, h, p, l)"
  using assms unfolding listen_ok_def by blast+

lemma listen_ok_sub:
  assumes x: "listen_ok a"
    and "listeners b = listeners a" and "nextSock b = nextSock a"
    and "\<And>n. set (idle b n) \<subseteq> set (idle a n)"
  shows "listen_ok b"
  unfolding listen_ok_def
proof (intro conjI allI ballI impI)
  fix s n h p l assume "listeners b s = Some (n, h, p, l)"
  then have "listeners a s = Some (n, h, p, l)" using assms(2) by simp
  then show "n = getName h p l" "s < nextSock b"
    using listen_ok_D(1,2) [OF x] assms(3) by auto
next
  fix n e assume "e \<in> set (idle b n)"
  with assms(4) have "e \<in> set (idle a n)" by blast
  then show "\<exists>h p l. listeners b (socket e) = Some (n, h, p, l)"
    using listen_ok_D(3) [OF x] assms(2) by simp
qed

lemma removeFromSockets_listen: "listen_ok a \<Longrightarrow> listen_ok (removeFromSockets a s name)"
  by (erule listen_ok_sub) simp_all

lemma removeFromIdleSockets_listen: "listen_ok a \<Longrightarrow> listen_ok (removeFromIdleSockets a s name)"
  by (erule listen_ok_sub) (simp_all add: set_spliceSocket)

lemma onSocket_listen: "listen_ok a \<Longrightarrow> listen_ok (onSocket a r s)"
  by (erule listen_ok_sub) simp_all

lemma validateIdle_listen:
  assumes "listen_ok a" and v: "validateIdle a name = Some (b, a')"
  shows "listen_ok a'"
proof (rule listen_ok_sub [OF assms(1)])
  note vs = validateIdle_Some [OF v]
  show "listeners a' = listeners a" "nextSock a' = nextSock a"
    by (simp_all add: vs)
  fix n show "set (idle a' n) \<subseteq> set (idle a n)"
    using reusable_sub [of a name] by (auto simp: vs(2))
qed

lemma findOrCreateSocket_listen:
  assumes x: "listen_ok a" and p: "pool_ok a" and nm: "name = getName host port la"
    and f: "findOrCreateSocket a name host port la r = (c, a')"
  shows "listen_ok a'" and "\<exists>h p l. listeners a' c = Some (name, h, p, l)"
proof -
  have "listen_ok a' \<and> (\<exists>h p l. listeners a' c = Some (name, h, p, l))"
  proof (cases "reusable a name")
    case Nil
    from findOrCreateSocket_create [OF Nil, of host port la r] f
    have c: "c = nextSock a"
      and idl: "\<And>n. idle a' n = (if n = name then [] else idle a n)"
      and nx: "nextSock a' = Suc (nextSock a)"
      and li: "listeners a' = (listeners a)(nextSock a \<mapsto> (name, host, port, la))"
      by auto
    have "listen_ok a'"
      unfolding listen_ok_def
    proof (intro conjI allI ballI impI)
      fix s n h p l assume "listeners a' s = Some (n, h, p, l)"
      then have "(s = nextSock a \<and> n = name \<and> h = host \<and> p = port \<and> l = la)
          \<or> listeners a s = Some (n, h, p, l)"
        by (auto simp: li split: if_splits)
      then show "n = getName h p l" "s < nextSock a'"
        using listen_ok_D(1,2) [OF x, of s n h p l] nm nx by auto
    next
      fix n e assume "e \<in> set (idle a' n)"
      then have e: "e \<in> set (idle a n)"
        by (auto simp: idl split: if_splits)
      then have "socket e \<noteq> nextSock a"
        using pool_ok_D(2) [OF p e] by simp
      then show "\<exists>h p l. listeners a' (socket e) = Some (n, h, p, l)"
        using listen_ok_D(3) [OF x e] by (simp add: li)
    qed
    then show ?thesis
      by (simp add: li c)
  next
    case (Cons e rest)
    from findOrCreateSocket_reuse [OF Cons, of host port la r] f
    have c: "c = socket e"
      and idl: "\<And>n. idle a' n = (if n = name then rest else idle a n)"
      and nx: "nextSock a' = nextSock a"
      and li: "listeners a' = listeners a"
      by auto
    have e_in: "e \<in> set (idle a name)" and rest_in: "set rest \<subseteq> set (idle a name)"
      using reusable_sub [of a name] Cons by auto
    have "listen_ok a'"
      by (rule listen_ok_sub [OF x li nx]) (use rest_in in \<open>simp add: idl\<close>)
    then show ?thesis
      using listen_ok_D(3) [OF x e_in] by (simp add: li c)
  qed
  then show "listen_ok a'" and "\<exists>h p l. listeners a' c = Some (name, h, p, l)"
    by blast+
qed

lemma onFree_listen:
  assumes x: "listen_ok a" and l: "listeners a s = Some (getName host port la, host, port, la)"
  shows "listen_ok (onFree a s host port la)"
proof (cases "s \<in> destroyed a \<or> queue a (getName host port la) = []")
  case True
  have "listen_ok (putIdleSocket (removeFromSockets a s (getName host port la)) s (getName host port la))"
    unfolding listen_ok_def
  proof (intro conjI allI ballI impI)
    fix s' n h p l'
    assume "listeners (putIdleSocket (removeFromSockets a s (getName host port la)) s (getName host port la)) s'
        = Some (n, h, p, l')"
    then have "listeners a s' = Some (n, h, p, l')" by simp
    then show "n = getName h p l'"
      "s' < nextSock (putIdleSocket (removeFromSockets a s (getName host port la)) s (getName host port la))"
      using listen_ok_D(1,2) [OF x, of s' n h p l'] by simp_all
  next
    fix n e
    assume "e \<in> set (idle (putIdleSocket (removeFromSockets a s (getName host port la)) s (getName host port la)) n)"
    then have "(n = getName host port la \<and> socket e = s) \<or> e \<in> set (idle a n)"
      by (auto split: if_splits)
    then show "\<exists>h p l'. listeners (putIdleSocket (removeFromSockets a s (getName host port la)) s
        (getName host port la)) (socket e) = Some (n, h, p, l')"
      using listen_ok_D(3) [OF x, of e n] l by auto
  qed
  with True show ?thesis by (simp add: onFree_park)
next
  case False
  then obtain r rs where q: "queue a (getName host port la) = r # rs" and d: "s \<notin> destroyed a"
    by (cases "queue a (getName host port la)") auto
  note v = onFree_serve [OF d q]
  show ?thesis
    by (rule listen_ok_sub [OF x v(11) v(10)]) (simp add: idle_def v(5))
qed

lemma emitFree_listen:
  assumes x: "listen_ok a"
  shows "listen_ok (emitFree a s)"
proof (cases "listeners a s")
  case None
  then show ?thesis using x by (simp add: emitFree_def)
next
  case (Some t)
  then obtain n h p l where l: "listeners a s = Some (n, h, p, l)"
    by (cases t) auto
  have "n = getName h p l"
    by (rule listen_ok_D(1) [OF x l])
  then show ?thesis
    using onFree_listen [OF x, of s h p l] l by (simp add: emitFree_def)
qed

lemma removeSocket_listen:
  assumes x: "listen_ok a" and p: "pool_ok a" and nm: "name = getName host port la"
  shows "listen_ok (removeSocket a s name host port la)"
proof -
  define a1 where "a1 = removeFromIdleSockets (removeFromSockets a s name) s name"
  have x1: "listen_ok a1"
    unfolding a1_def by (intro removeFromIdleSockets_listen removeFromSockets_listen x)
  have p1: "pool_ok a1"
    unfolding a1_def by (intro removeFromIdleSockets_pool removeFromSockets_pool p)
  show ?thesis
  proof (cases "queue a1 name")
    case Nil
    then have "removeSocket a s name host port la = a1"
      by (auto simp: removeSocket_def a1_def [symmetric] Let_def queue_def
            split: option.splits list.splits)
    with x1 show ?thesis by simp
  next
    case (Cons r rs)
    then have q: "requests a1 name = Some (r # rs)"
      by (auto simp: queue_def split: option.splits)
    obtain c a2 where f: "findOrCreateSocket a1 name host port la (Some r) = (c, a2)"
      by (cases "findOrCreateSocket a1 name host port la (Some r)")
    have "removeSocket a s name host port la = emitFree a2 c"
      using q f by (simp add: removeSocket_def a1_def [symmetric] Let_def)
    moreover have "listen_ok (emitFree a2 c)"
      using findOrCreateSocket_listen(1) [OF x1 p1 nm f] by (rule emitFree_listen)
    ultimately show ?thesis by simp
  qed
qed

lemma addRequest_listen:
  assumes x: "listen_ok a" and p: "pool_ok a"
  shows "listen_ok (addRequest a r host port la)"
proof -
  define name where "name = getName host port la"
  define a1 where "a1 = (if sockets a name = None then a\<lparr>sockets := (sockets a)(name \<mapsto> [])\<rparr> else a)"
  have x1: "listen_ok a1"
    by (rule listen_ok_sub [OF x]) (simp_all add: a1_def)
  have p1: "pool_ok a1"
    by (rule pool_ok_cong [OF p]) (auto simp: a1_def active_def)
  show ?thesis
  proof (cases "int (length (active a1 name)) < maxSockets a1")
    case True
    obtain c a2 where f: "findOrCreateSocket a1 name host port la (Some r) = (c, a2)"
      by (cases "findOrCreateSocket a1 name host port la (Some r)")
    have "addRequest a r host port la = onSocket a2 r c"
      using True f by (simp add: addRequest_def name_def [symmetric] a1_def [symmetric] Let_def)
    moreover have "listen_ok (onSocket a2 r c)"
      using findOrCreateSocket_listen(1) [OF x1 p1 name_def f] by (rule onSocket_listen)
    ultimately show ?thesis by simp
  next
    case False
    then have "addRequest a r host port la =
        a1\<lparr>requests := (requests a1)(name \<mapsto> queue a1 name @ [r])\<rparr>"
      by (simp add: addRequest_def name_def [symmetric] a1_def [symmetric] Let_def)
    moreover have "listen_ok (a1\<lparr>requests := (requests a1)(name \<mapsto> queue a1 name @ [r])\<rparr>)"
      by (rule listen_ok_sub [OF x1]) simp_all
    ultimately show ?thesis by simp
  qed
qed

lemma sweep_listen: "listen_ok a \<Longrightarrow> listen_ok (snd (sweep a ns k))"
proof (induction ns arbitrary: a k)
  case Nil
  then show ?case by simp
next
  case (Cons n ns)
  show ?case
  proof (cases "validateIdle a n")
    case None
    then show ?thesis using Cons by simp
  next
    case (Some ba)
    then obtain b a1 where v: "validateIdle a n = Some (b, a1)"
      by (cases ba) auto
    have "listen_ok a1"
      using Cons.prems v by (rule validateIdle_listen)
    then show ?thesis
      using Cons.IH v by simp
  qed
qed

lemma validatorTick_listen:
  assumes "listen_ok a"
  shows "listen_ok (validatorTick a)"
proof -
  define a1 where "a1 = a\<lparr>validationTimer := False\<rparr>"
  have x1: "listen_ok a1"
    by (rule listen_ok_sub [OF assms]) (simp_all add: a1_def)
  obtain k a2 where sw: "sweep a1 (map fst (idleSockets a1)) 0 = (k, a2)"
    by (cases "sweep a1 (map fst (idleSockets a1)) 0")
  have x2: "listen_ok a2"
    using sweep_listen [OF x1, of "map fst (idleSockets a1)" 0] sw by simp
  have "listen_ok (setupValidator a2)"
    by (rule listen_ok_sub [OF x2]) simp_all
  then show ?thesis
    using x2 sw by (simp add: validatorTick_def a1_def [symmetric] Let_def)
qed


lemma onFree_idle_sub:
  "socket ` set (idle (onFree a c host port la) n) \<subseteq> insert c (socket ` set (idle a n))"
proof (cases "c \<in> destroyed a \<or> queue a (getName host port la) = []")
  case True
  then show ?thesis by (auto simp: onFree_park)
next
  case False
  then obtain r rs where q: "queue a (getName host port la) = r # rs" and d: "c \<notin> destroyed a"
    by (cases "queue a (getName host port la)") auto
  note v = onFree_serve [OF d q]
  have "idle (onFree a c host port la) n = idle a n"
    by (simp add: idle_def v(5))
  then show ?thesis by auto
qed

lemma emitFree_idle_sub:
  "socket ` set (idle (emitFree a c) n) \<subseteq> insert c (socket ` set (idle a n))"
  using onFree_idle_sub by (auto simp: emitFree_def split: option.splits)

lemma removeSocket_gone:
  assumes p: "pool_ok a" and x: "listen_ok a"
    and l: "listeners a s = Some (name, host, port, la)"
  shows "s \<notin> socket ` set (idle (removeSocket a s name host port la) n)"
proof -
  define a1 where "a1 = removeFromIdleSockets (removeFromSockets a s name) s name"
  have p1: "pool_ok a1"
    unfolding a1_def by (intro removeFromIdleSockets_pool removeFromSockets_pool p)
  have g1: "s \<notin> socket ` set (idle a1 m)" for m
  proof (cases "m = name")
    case True
    then show ?thesis
      using spliceSocket_gone [OF pool_ok_D(5) [OF p, of name], of s] by (simp add: a1_def)
  next
    case False
    show ?thesis
    proof
      assume "s \<in> socket ` set (idle a1 m)"
      then obtain e where e: "e \<in> set (idle a m)" "socket e = s"
        using False by (auto simp: a1_def)
      from listen_ok_D(3) [OF x e(1)] e(2) l have "m = name" by auto
      with False show False by simp
    qed
  qed
  show ?thesis
  proof (cases "queue a1 name")
    case Nil
    then have "removeSocket a s name host port la = a1"
      by (auto simp: removeSocket_def a1_def [symmetric] Let_def queue_def
            split: option.splits list.splits)
    with g1 show ?thesis by simp
  next
    case (Cons r rs)
    then have q: "requests a1 name = Some (r # rs)"
      by (auto simp: queue_def split: option.splits)
    obtain c a2 where f: "findOrCreateSocket a1 name host port la (Some r) = (c, a2)"
      by (cases "findOrCreateSocket a1 name host port la (Some r)")
    have rs: "removeSocket a s name host port la = emitFree a2 c"
      using q f by (simp add: removeSocket_def a1_def [symmetric] Let_def)
    have slt: "s < nextSock a1"
      using listen_ok_D(2) [OF x l] by (simp add: a1_def)
    have "c \<noteq> s \<and> (\<forall>m. set (idle a2 m) \<subseteq> set (idle a1 m))"
    proof (cases "reusable a1 name")
      case Nil
      from findOrCreateSocket_create [OF Nil, of host port la "Some r"] f slt
      show ?thesis by auto
    next
      case (Cons e rest)
      have "e \<in> set (idle a1 name)" "set rest \<subseteq> set (idle a1 name)"
        using reusable_sub [of a1 name] Cons by auto
      moreover from findOrCreateSocket_reuse [OF Cons, of host port la "Some r"] f
      have "c = socket e" "\<And>m. idle a2 m = (if m = name then rest else idle a1 m)"
        by auto
      ultimately show ?thesis
        using g1 [of name] by auto
    qed
    then have "c \<noteq> s" and "s \<notin> socket ` set (idle a2 n)"
      using g1 [of n] by auto
    then show ?thesis
      using emitFree_idle_sub [of a2 c n] rs by auto
  qed
qed

lemma step_listen:
  assumes x: "listen_ok a" and p: "pool_ok a"
  shows "listen_ok (step a e)"
proof (cases e)
  case (AddRequest r host port la)
  then show ?thesis using addRequest_listen [OF x p] by simp
next
  case (SockFree s)
  have "listen_ok (a\<lparr>inUse := inUse a - {s}\<rparr>)"
    by (rule listen_ok_sub [OF x]) simp_all
  then show ?thesis
    using SockFree x emitFree_listen by simp
next
  case (SockClose s)
  show ?thesis
  proof (cases "listeners a s")
    case None
    then show ?thesis using SockClose x by simp
  next
    case (Some t)
    then obtain name host port la where l: "listeners a s = Some (name, host, port, la)"
      by (cases t) auto
    have "listen_ok (removeSocket a s name host port la)"
      using x p listen_ok_D(1) [OF x l] by (rule removeSocket_listen)
    then show ?thesis using SockClose l by simp
  qed
next
  case (SockAgentRemove s)
  show ?thesis
  proof (cases "listeners a s")
    case None
    then show ?thesis using SockAgentRemove x by simp
  next
    case (Some t)
    then obtain name host port la where l: "listeners a s = Some (name, host, port, la)"
      by (cases t) auto
    define b where "b = removeSocket a s name host port la"
    have xb: "listen_ok b"
      unfolding b_def using x p listen_ok_D(1) [OF x l] by (rule removeSocket_listen)
    have gone: "\<And>n. s \<notin> socket ` set (idle b n)"
      unfolding b_def by (rule removeSocket_gone [OF p x l])
    have "listen_ok (b\<lparr>listeners := (listeners b)(s := None)\<rparr>)"
      unfolding listen_ok_def
    proof (intro conjI allI ballI impI)
      fix s' n h p' l'
      assume "listeners (b\<lparr>listeners := (listeners b)(s := None)\<rparr>) s' = Some (n, h, p', l')"
      then have "listeners b s' = Some (n, h, p', l')"
        by (simp split: if_splits)
      then show "n = getName h p' l'" "s' < nextSock (b\<lparr>listeners := (listeners b)(s := None)\<rparr>)"
        using listen_ok_D(1,2) [OF xb, of s' n h p' l'] by simp_all
    next
      fix n e assume "e \<in> set (idle (b\<lparr>listeners := (listeners b)(s := None)\<rparr>) n)"
      then have e: "e \<in> set (idle b n)" by simp
      then have "socket e \<noteq> s" using gone [of n] by auto
      then show "\<exists>h p' l'. listeners (b\<lparr>listeners := (listeners b)(s := None)\<rparr>) (socket e)
          = Some (n, h, p', l')"
        using listen_ok_D(3) [OF xb e] by simp
    qed
    then show ?thesis
      using SockAgentRemove l by (simp add: Let_def b_def)
  qed
next
  case (SockDestroyed s)
  have "listen_ok (a\<lparr>destroyed := insert s (destroyed a)\<rparr>)"
    by (rule listen_ok_sub [OF x]) simp_all
  then show ?thesis using SockDestroyed by simp
next
  case TimerFires
  have "listen_ok (a\<lparr>pendingTimers := pendingTimers a - 1\<rparr>)"
    by (rule listen_ok_sub [OF x]) simp_all
  then show ?thesis
    using TimerFires x validatorTick_listen by simp
next
  case (Elapse d)
  have "listen_ok (a\<lparr>clock := clock a + int d\<rparr>)"
    by (rule listen_ok_sub [OF x]) simp_all
  then show ?thesis using Elapse by simp
qed

lemma Agent_listen: "listen_ok (Agent opts t0)"
  by (simp add: listen_ok_def Agent_def idle_def)

lemma reachable_listen: "reachable a \<Longrightarrow> listen_ok a"
proof (induction rule: reachable.induct)
  case (init opts t0)
  show ?case by (rule Agent_listen)
next
  case (step a e)
  then show ?case
    using step_listen reachable_pool by blast
qed

section \<open>The wait queue\<close>

text \<open>What \<open>removeSocket\<close> does when requests wait, and that every event moves the queue of
  a key as \<open>fifo_move\<close> allows.\<close>

lemma findOrCreateSocket_frame:
  assumes "findOrCreateSocket a name host port la r = (c, a')"
  shows "requests a' = requests a" "assigned a' = assigned a" "inUse a' = inUse a"
    "clock a' = clock a" "keepAlive a' = keepAlive a" "maxSockets a' = maxSockets a"
    "validationTimer a' = validationTimer a" "pendingTimers a' = pendingTimers a"
proof -
  have "requests a' = requests a \<and> assigned a' = assigned a \<and> inUse a' = inUse a
      \<and> clock a' = clock a \<and> keepAlive a' = keepAlive a \<and> maxSockets a' = maxSockets a
      \<and> validationTimer a' = validationTimer a \<and> pendingTimers a' = pendingTimers a"
  proof (cases "reusable a name")
    case Nil
    from findOrCreateSocket_create [OF Nil, of host port la r] assms show ?thesis by auto
  next
    case (Cons e rest)
    from findOrCreateSocket_reuse [OF Cons, of host port la r] assms show ?thesis by auto
  qed
  then show "requests a' = requests a" "assigned a' = assigned a" "inUse a' = inUse a"
    "clock a' = clock a" "keepAlive a' = keepAlive a" "maxSockets a' = maxSockets a"
    "validationTimer a' = validationTimer a" "pendingTimers a' = pendingTimers a"
    by simp_all
qed

lemma removeSocket_eq:
  assumes "queue a name = r # rs"
  shows "removeSocket a s name host port la =
     emitFree (snd (replacement a s name host port la r)) (fst (replacement a s name host port la r))"
proof -
  have "requests (removeFromIdleSockets (removeFromSockets a s name) s name) name = Some (r # rs)"
    using assms by (auto simp: queue_def split: option.splits)
  then show ?thesis
    by (simp add: removeSocket_def replacement_def Let_def split: prod.splits)
qed

lemma fifo_move_same:
  "queue b n = queue a n \<Longrightarrow> assigned b = assigned a \<Longrightarrow> fifo_move a b n"
  by (simp add: fifo_move_def)

lemma fifo_move_cong:
  "fifo_move a b n \<Longrightarrow> queue a' n = queue a n \<Longrightarrow> assigned a' = assigned a \<Longrightarrow> fifo_move a' b n"
  by (simp add: fifo_move_def)

lemma onFree_fifo: "fifo_move a (onFree a s host port la) n"
proof (cases "s \<in> destroyed a \<or> queue a (getName host port la) = []")
  case True
  then show ?thesis
    by (intro fifo_move_same) (simp_all add: onFree_park)
next
  case False
  then obtain r rs where q: "queue a (getName host port la) = r # rs" and d: "s \<notin> destroyed a"
    by (cases "queue a (getName host port la)") auto
  note v = onFree_serve [OF d q]
  show ?thesis
    using v(1) [of n] v(3) q by (auto simp: fifo_move_def)
qed

lemma emitFree_fifo: "fifo_move a (emitFree a s) n"
  using onFree_fifo by (auto simp: emitFree_def fifo_move_same split: option.splits)

lemma removeSocket_fifo: "fifo_move a (removeSocket a s name host port la) n"
proof -
  define a1 where "a1 = removeFromIdleSockets (removeFromSockets a s name) s name"
  have q1: "requests a1 = requests a" "assigned a1 = assigned a"
    by (simp_all add: a1_def)
  show ?thesis
  proof (cases "queue a1 name")
    case Nil
    then have "removeSocket a s name host port la = a1"
      by (auto simp: removeSocket_def a1_def [symmetric] Let_def queue_def
            split: option.splits list.splits)
    then show ?thesis
      using q1 by (simp add: fifo_move_same queue_def)
  next
    case (Cons r rs)
    then have q: "requests a1 name = Some (r # rs)"
      by (auto simp: queue_def split: option.splits)
    obtain c a2 where f: "findOrCreateSocket a1 name host port la (Some r) = (c, a2)"
      by (cases "findOrCreateSocket a1 name host port la (Some r)")
    have e: "removeSocket a s name host port la = emitFree a2 c"
      using q f by (simp add: removeSocket_def a1_def [symmetric] Let_def)
    note fr = findOrCreateSocket_frame [OF f]
    have "queue a n = queue a2 n" "assigned a = assigned a2"
      using fr(1,2) q1 by (simp_all add: queue_def)
    then show ?thesis
      unfolding e using emitFree_fifo [of a2 c n] by (simp add: fifo_move_def)
  qed
qed

lemma addRequest_queue:
  "queue (addRequest a r host port la) n =
     (if n = getName host port la \<and> \<not> int (length (active a n)) < maxSockets a
      then queue a n @ [r] else queue a n)"
  and addRequest_assigned:
  "\<not> int (length (active a (getName host port la))) < maxSockets a \<Longrightarrow>
     assigned (addRequest a r host port la) = assigned a"
  and addRequest_saturated:
  "\<not> int (length (active a (getName host port la))) < maxSockets a \<Longrightarrow>
     active (addRequest a r host port la) = active a
     \<and> maxSockets (addRequest a r host port la) = maxSockets a"
  and addRequest_assigned_ext:
  "\<exists>xs. assigned (addRequest a r host port la) = assigned a @ xs"
proof -
  define name where "name = getName host port la"
  define a1 where "a1 = (if sockets a name = None then a\<lparr>sockets := (sockets a)(name \<mapsto> [])\<rparr> else a)"
  have v1: "active a1 = active a" "requests a1 = requests a" "maxSockets a1 = maxSockets a"
    "assigned a1 = assigned a"
    by (auto simp: a1_def active_def fun_eq_iff)
  obtain c a2 where f: "findOrCreateSocket a1 name host port la (Some r) = (c, a2)"
    by (cases "findOrCreateSocket a1 name host port la (Some r)")
  note fr = findOrCreateSocket_frame [OF f]
  have eq: "addRequest a r host port la =
      (if int (length (active a name)) < maxSockets a then onSocket a2 r c
       else a1\<lparr>requests := (requests a1)(name \<mapsto> queue a name @ [r])\<rparr>)"
    using f v1 by (simp add: addRequest_def name_def [symmetric] a1_def [symmetric] Let_def queue_def)
  have q2: "requests a2 = requests a"
    using fr(1) v1(2) by simp
  show "queue (addRequest a r host port la) n =
     (if n = getName host port la \<and> \<not> int (length (active a n)) < maxSockets a
      then queue a n @ [r] else queue a n)"
    unfolding eq name_def [symmetric] using q2 v1(2) by (auto simp: queue_def)
  show "\<not> int (length (active a (getName host port la))) < maxSockets a \<Longrightarrow>
     assigned (addRequest a r host port la) = assigned a"
    unfolding eq name_def [symmetric] using v1(4) by simp
  show "\<not> int (length (active a (getName host port la))) < maxSockets a \<Longrightarrow>
     active (addRequest a r host port la) = active a
     \<and> maxSockets (addRequest a r host port la) = maxSockets a"
    unfolding eq name_def [symmetric] using v1(1,3) by (simp add: fun_eq_iff)
  show "\<exists>xs. assigned (addRequest a r host port la) = assigned a @ xs"
    unfolding eq using v1(4) fr(2) by simp
qed

lemma addRequest_fifo: "fifo_move a (addRequest a r host port la) n"
proof (cases "int (length (active a (getName host port la))) < maxSockets a")
  case True
  then show ?thesis
    using addRequest_queue [of a r host port la n] addRequest_assigned_ext [of a r host port la]
    by (auto simp: fifo_move_def)
next
  case False
  then show ?thesis
    using addRequest_queue [of a r host port la n] addRequest_assigned [OF False, of r]
    by (auto simp: fifo_move_def)
qed

lemma sweep_requests:
  "requests (snd (sweep a ns k)) = requests a \<and> assigned (snd (sweep a ns k)) = assigned a"
proof (induction ns arbitrary: a k)
  case Nil
  then show ?case by simp
next
  case (Cons n ns)
  show ?case
  proof (cases "validateIdle a n")
    case None
    then show ?thesis using Cons by simp
  next
    case (Some ba)
    then obtain b a1 where v: "validateIdle a n = Some (b, a1)"
      by (cases ba) auto
    show ?thesis
      using Cons [of a1] v validateIdle_Some [OF v] by simp
  qed
qed

lemma validatorTick_requests:
  "requests (validatorTick a) = requests a \<and> assigned (validatorTick a) = assigned a"
proof -
  define a1 where "a1 = a\<lparr>validationTimer := False\<rparr>"
  obtain k a2 where sw: "sweep a1 (map fst (idleSockets a1)) 0 = (k, a2)"
    by (cases "sweep a1 (map fst (idleSockets a1)) 0")
  have "requests a2 = requests a \<and> assigned a2 = assigned a"
    using sweep_requests [of a1 "map fst (idleSockets a1)" 0] sw by (simp add: a1_def)
  then show ?thesis
    using sw by (simp add: validatorTick_def a1_def [symmetric] Let_def)
qed

lemma step_fifo: "fifo_move a (step a e) n"
proof (cases e)
  case (AddRequest r host port la)
  then show ?thesis using addRequest_fifo by simp
next
  case (SockFree s)
  have "fifo_move (a\<lparr>inUse := inUse a - {s}\<rparr>) (emitFree (a\<lparr>inUse := inUse a - {s}\<rparr>) s) n"
    by (rule emitFree_fifo)
  then have "fifo_move a (emitFree (a\<lparr>inUse := inUse a - {s}\<rparr>) s) n"
    by (rule fifo_move_cong) simp_all
  then show ?thesis
    using SockFree by (simp add: fifo_move_same)
next
  case (SockClose s)
  then show ?thesis
    using removeSocket_fifo by (simp add: fifo_move_same split: option.splits)
next
  case (SockAgentRemove s)
  show ?thesis
  proof (cases "listeners a s")
    case None
    then show ?thesis using SockAgentRemove by (simp add: fifo_move_same)
  next
    case (Some t)
    then obtain name host port la where l: "listeners a s = Some (name, host, port, la)"
      by (cases t) auto
    have "fifo_move a (removeSocket a s name host port la) n"
      by (rule removeSocket_fifo)
    then have "fifo_move a ((removeSocket a s name host port la)
        \<lparr>listeners := (listeners (removeSocket a s name host port la))(s := None)\<rparr>) n"
      by (simp add: fifo_move_def)
    then show ?thesis
      using SockAgentRemove l by (simp add: Let_def)
  qed
next
  case (SockDestroyed s)
  then show ?thesis by (simp add: fifo_move_same)
next
  case TimerFires
  then show ?thesis
    using validatorTick_requests [of "a\<lparr>pendingTimers := pendingTimers a - 1\<rparr>"]
    by (simp add: fifo_move_same queue_def)
next
  case (Elapse d)
  then show ?thesis by (simp add: fifo_move_same)
qed

text \<open>Over a whole run: the requests that have left the queue of a key are the first \<open>k\<close>
  of those that stood or arrived in it, and they were given their sockets in that order.\<close>

lemma run_fifo:
  "\<exists>k new served.
      k \<le> length (queue a n @ new)
      \<and> queue (run a es) n = drop k (queue a n @ new)
      \<and> assigned (run a es) = assigned a @ served
      \<and> subseq (take k (queue a n @ new)) (map fst served)"
proof (induction es arbitrary: a)
  case Nil
  have "0 \<le> length (queue a n @ []) \<and> queue (run a []) n = drop 0 (queue a n @ [])
      \<and> assigned (run a []) = assigned a @ [] \<and> subseq (take 0 (queue a n @ [])) (map fst [])"
    by simp
  then show ?case by blast
next
  case (Cons e es)
  define b where "b = step a e"
  from Cons [of b] obtain k new served where
    k: "k \<le> length (queue b n @ new)"
    and q: "queue (run b es) n = drop k (queue b n @ new)"
    and s: "assigned (run b es) = assigned b @ served"
    and o: "subseq (take k (queue b n @ new)) (map fst served)"
    by blast
  have r: "run a (e # es) = run b es"
    by (simp add: b_def)
  have "fifo_move a b n"
    unfolding b_def by (rule step_fifo)
  then consider
    (same) xs where "queue b n = queue a n" "assigned b = assigned a @ xs"
    | (push) x where "queue b n = queue a n @ [x]" "assigned b = assigned a"
    | (pop) x c where "queue a n = x # queue b n" "assigned b = assigned a @ [(x, c)]"
    unfolding fifo_move_def by blast
  then show ?case
  proof cases
    case same
    have "k \<le> length (queue a n @ new)
      \<and> queue (run a (e # es)) n = drop k (queue a n @ new)
      \<and> assigned (run a (e # es)) = assigned a @ (xs @ served)
      \<and> subseq (take k (queue a n @ new)) (map fst (xs @ served))"
      using k q s o same r by (simp add: list_emb_append2)
    then show ?thesis by blast
  next
    case push
    have "k \<le> length (queue a n @ (x # new))
      \<and> queue (run a (e # es)) n = drop k (queue a n @ (x # new))
      \<and> assigned (run a (e # es)) = assigned a @ served
      \<and> subseq (take k (queue a n @ (x # new))) (map fst served)"
      using k q s o push r by simp
    then show ?thesis by blast
  next
    case pop
    have "Suc k \<le> length (queue a n @ new)
      \<and> queue (run a (e # es)) n = drop (Suc k) (queue a n @ new)
      \<and> assigned (run a (e # es)) = assigned a @ ((x, c) # served)
      \<and> subseq (take (Suc k) (queue a n @ new)) (map fst ((x, c) # served))"
      using k q s o pop r by simp
    then show ?thesis by blast
  qed
qed

section \<open>The claims\<close>

text \<open>
  The theorems below speak of single operations on an arbitrary Agent, or of the Agents that
  are \<open>reachable\<close>: those that a sequence of events leads to from a newly constructed one.
  Two things about the surroundings are built into \<open>step\<close>, and every statement about
  reachable Agents rests on them: a socket emits \<open>free\<close> only while a request has it (once for
  each \<open>onSocket\<close>), and the clock does not run backwards.
\<close>

lemmas pool_defs =
  Agent_def or_default_def defaultMaxSockets_def defaultKeepAlive_def getName_def
  active_def idle_def queue_def expired_def stale_def reusable_def
  removeFromSockets_def removeFromIdleSockets_def setupValidator_def putIdleSocket_def
  validateIdle_def findIdleSocket_def findOrCreateSocket_def onSocket_def onFree_def
  emitFree_def addRequest_def removeSocket_def validatorTick_def replacement_def Let_def

lemma reachable_run: "reachable a \<Longrightarrow> reachable (run a es)"
  by (induction es arbitrary: a) (auto intro: reachable.step)

lemma reusable_nonempty_iff:
  "reusable a n \<noteq> [] \<longleftrightarrow> (\<exists>e \<in> set (idle a n). \<not> validTill e < clock a)"
  by (simp add: reusable_def expired_def)

subsection \<open>C1: the active set of a key can grow beyond maxSockets\<close>

text \<open>\<open>addRequest\<close> keeps to the bound: it leaves no active set longer than it was, or than
  \<open>maxSockets\<close>.\<close>

lemma addRequest_within_capacity:
  "int (length (active (addRequest a r host port la) n))
     \<le> max (int (length (active a n))) (maxSockets a)"
proof (cases "int (length (active a (getName host port la))) < maxSockets a")
  case False
  then show ?thesis
    using addRequest_saturated [OF False, of r] by simp
next
  case True
  define name where "name = getName host port la"
  define a1 where "a1 = (if sockets a name = None then a\<lparr>sockets := (sockets a)(name \<mapsto> [])\<rparr> else a)"
  have v1: "active a1 = active a" "maxSockets a1 = maxSockets a"
    by (auto simp: a1_def active_def fun_eq_iff)
  obtain c a2 where f: "findOrCreateSocket a1 name host port la (Some r) = (c, a2)"
    by (cases "findOrCreateSocket a1 name host port la (Some r)")
  have eq: "addRequest a r host port la = onSocket a2 r c"
    using f v1 True
    by (simp add: addRequest_def name_def [symmetric] a1_def [symmetric] Let_def)
  have "length (active a2 n) \<le> (if n = name then Suc (length (active a1 name)) else length (active a1 n))"
  proof (cases "reusable a1 name")
    case Nil
    from findOrCreateSocket_create [OF Nil, of host port la "Some r"] f
    show ?thesis by auto
  next
    case (Cons e rest)
    from findOrCreateSocket_reuse [OF Cons, of host port la "Some r"] f
    show ?thesis by auto
  qed
  then have "int (length (active a2 n)) \<le> max (int (length (active a n))) (maxSockets a)"
    using True v1 unfolding name_def [symmetric] by (cases "n = name") auto
  then show ?thesis
    unfolding eq by simp
qed

text \<open>
  Claim C1 says that the active set of a key never holds more than \<open>maxSockets\<close>
  connections, in any reachable state. \<open>addRequest\<close> checks the bound before it obtains a
  connection; \<open>removeSocket\<close> obtains one for the head request without the check, on the
  assumption that the socket being removed held a place in the active set. That fails when
  the socket is one that \<open>validateIdle\<close> has destroyed: it is in no table any more, but its
  \<open>close\<close> listener is still registered and \<open>destroy()\<close> makes it emit \<open>close\<close>.

  With \<open>maxSockets = 1\<close> and \<open>keepAlive = 10\<close>: request 1 gets the new socket 0; socket 0
  is freed and parked; 11 ms pass; request 2 finds the idle entry expired, so socket 0 is
  destroyed and socket 1 is created; request 3 is queued; socket 0 emits \<open>close\<close>, and
  \<open>removeSocket\<close> creates socket 2 for request 3. The active set is then \<open>[1, 2]\<close>.
\<close>

theorem capacity_exceeded_after_stale_close:
  "reachable (run (Agent opts1 0) stale_close_trace)
   \<and> maxSockets (run (Agent opts1 0) stale_close_trace) = 1
   \<and> sockets (run (Agent opts1 0) stale_close_trace) ''h:80'' = Some [1, 2]
   \<and> assigned (run (Agent opts1 0) stale_close_trace) = [(1, 0), (2, 1), (3, 2)]"
proof -
  have "reachable (run (Agent opts1 0) stale_close_trace)"
    by (intro reachable_run reachable.init)
  moreover have "maxSockets (run (Agent opts1 0) stale_close_trace) = 1"
    "sockets (run (Agent opts1 0) stale_close_trace) ''h:80'' = Some [1, 2]"
    "assigned (run (Agent opts1 0) stale_close_trace) = [(1, 0), (2, 1), (3, 2)]"
    by (simp_all add: stale_close_trace_def opts1_def pool_defs)
  ultimately show ?thesis by simp
qed

subsection \<open>C2: the wait queue of a key is served first in, first out\<close>

text \<open>
  Claim C2. Requests queued for one key are served in the order of their arrival. Three
  facts: while the key is saturated, two calls of \<open>addRequest\<close> append \<open>r1\<close> and then
  \<open>r2\<close> at the back of the queue; the handler of \<open>free\<close>, given a socket that is not
  destroyed, hands it to the request at the front and takes that request off; and over any
  sequence of events, the requests that have left the queue of a key are the first \<open>k\<close> of
  those that stood in it or arrived in it (\<open>new\<close>), and the calls of \<open>onSocket\<close> made
  meanwhile (\<open>served\<close>) contain theirs in the order of the queue. So \<open>r2\<close> is not given a
  socket before \<open>r1\<close>, which waits in front of it.
\<close>

theorem queue_served_fifo:
  "(\<not> int (length (active a (getName host port la))) < maxSockets a \<longrightarrow>
      queue (addRequest (addRequest a r1 host port la) r2 host port la) (getName host port la) =
        queue a (getName host port la) @ [r1, r2])
   \<and> (s \<notin> destroyed a \<and> queue a (getName host port la) = r # rs \<longrightarrow>
      assigned (onFree a s host port la) = assigned a @ [(r, s)]
      \<and> queue (onFree a s host port la) (getName host port la) = rs)
   \<and> (\<exists>k new served.
        k \<le> length (queue a n @ new)
        \<and> queue (run a es) n = drop k (queue a n @ new)
        \<and> assigned (run a es) = assigned a @ served
        \<and> subseq (take k (queue a n @ new)) (map fst served))"
proof (intro conjI impI)
  assume sat: "\<not> int (length (active a (getName host port la))) < maxSockets a"
  note s1 = addRequest_saturated [OF sat, of r1]
  have sat1: "\<not> int (length (active (addRequest a r1 host port la) (getName host port la)))
      < maxSockets (addRequest a r1 host port la)"
    using sat s1 by simp
  show "queue (addRequest (addRequest a r1 host port la) r2 host port la) (getName host port la) =
        queue a (getName host port la) @ [r1, r2]"
    using sat sat1 by (simp add: addRequest_queue)
next
  assume h: "s \<notin> destroyed a \<and> queue a (getName host port la) = r # rs"
  then have d: "s \<notin> destroyed a" and q: "queue a (getName host port la) = r # rs"
    by simp_all
  note v = onFree_serve [OF d q]
  show "assigned (onFree a s host port la) = assigned a @ [(r, s)]" by (rule v(3))
  show "queue (onFree a s host port la) (getName host port la) = rs"
    using v(1) [of "getName host port la"] by simp
next
  show "\<exists>k new served.
        k \<le> length (queue a n @ new)
        \<and> queue (run a es) n = drop k (queue a n @ new)
        \<and> assigned (run a es) = assigned a @ served
        \<and> subseq (take k (queue a n @ new)) (map fst served)"
    by (rule run_fifo)
qed

theorem queue_served_fifo_witness:
  "\<not> int (length (active saturated_state (getName ''h'' ''80'' None))) < maxSockets saturated_state
   \<and> queue saturated_state ''h:80'' = []
   \<and> queue (addRequest (addRequest saturated_state 2 ''h'' ''80'' None) 3 ''h'' ''80'' None) ''h:80''
        = [2, 3]
   \<and> assigned (onFree (addRequest (addRequest saturated_state 2 ''h'' ''80'' None) 3 ''h'' ''80'' None)
        0 ''h'' ''80'' None) = [(1, 0), (2, 0)]
   \<and> queue (onFree (addRequest (addRequest saturated_state 2 ''h'' ''80'' None) 3 ''h'' ''80'' None)
        0 ''h'' ''80'' None) ''h:80'' = [3]"
proof -
  define b where "b = addRequest (addRequest saturated_state 2 ''h'' ''80'' None) 3 ''h'' ''80'' None"
  have g: "getName ''h'' ''80'' None = ''h:80''"
    by (simp add: getName_def)
  have sat: "\<not> int (length (active saturated_state (getName ''h'' ''80'' None)))
      < maxSockets saturated_state"
    and q0: "queue saturated_state ''h:80'' = []"
    and as0: "assigned saturated_state = [(1, 0)]"
    and d0: "destroyed saturated_state = {}"
    by (simp_all add: saturated_state_def opts1_def pool_defs)
  have q2: "queue b (getName ''h'' ''80'' None) = [2, 3]"
    unfolding b_def
    using queue_served_fifo [of saturated_state "''h''" "''80''" None 2 3] sat q0 g by simp
  have as2: "assigned b = [(1, 0)]"
    unfolding b_def using sat as0 addRequest_saturated [OF sat, of 2]
    by (simp add: addRequest_assigned)
  have d2: "0 \<notin> destroyed b"
    unfolding b_def by (simp add: saturated_state_def opts1_def pool_defs)
  have "assigned (onFree b 0 ''h'' ''80'' None) = [(1, 0), (2, 0)]
      \<and> queue (onFree b 0 ''h'' ''80'' None) ''h:80'' = [3]"
    using queue_served_fifo [of b "''h''" "''80''" None _ _ 0 2 "[3]"] q2 as2 d2 g by simp
  then show ?thesis
    using sat q0 q2 g unfolding b_def by simp
qed

subsection \<open>C3: a close with requests waiting obtains a connection for the head request\<close>

text \<open>
  Claim C3 says that when a tracked connection closes while requests wait, the head request
  is given the connection that \<open>findOrCreateSocket\<close> returns, and that with
  \<open>maxSockets = 1\<close>, one active connection and one queued request, closing the active
  connection creates a new connection for the queued request.

  As stated this fails. \<open>findOrCreateSocket\<close> prefers an idle socket, the handler of \<open>free\<close>
  parks a destroyed socket like any other, and it never hands a destroyed socket to a
  request. With \<open>maxSockets = 2\<close>: requests 1 and 2 get sockets 0 and 1, request 3 is
  queued, socket 0 is destroyed and then freed, so it is parked; socket 1 closes.
  \<open>removeSocket\<close> takes socket 0 from the idle list and emits \<open>free\<close> on it; the handler
  finds it destroyed and parks it again. Request 3 stays in the queue and no connection is
  created.
\<close>

theorem close_leaves_head_waiting_counterexample:
  "listeners dead_reuse_state 1 = Some (''h:80'', ''h'', ''80'', None)
   \<and> active dead_reuse_state ''h:80'' = [1]
   \<and> queue dead_reuse_state ''h:80'' = [3]
   \<and> assigned (step dead_reuse_state (SockClose 1)) = assigned dead_reuse_state
   \<and> queue (step dead_reuse_state (SockClose 1)) ''h:80'' = [3]
   \<and> active (step dead_reuse_state (SockClose 1)) ''h:80'' = []
   \<and> nextSock (step dead_reuse_state (SockClose 1)) = nextSock dead_reuse_state"
  by (simp add: dead_reuse_state_def opts2_def pool_defs)

text \<open>
  The special case of the claim needs the idle list of the key to be empty. After the run of
  C1, with \<open>maxSockets = 1\<close>, socket 1 is freed and parked and request 4 is queued behind
  the active socket 2. When socket 2 closes, request 4 is given the idle socket 1 and no
  connection is created.
\<close>

lemma close_reuses_idle_socket:
  "maxSockets idle_beside_waiting_state = 1
   \<and> active idle_beside_waiting_state ''h:80'' = [2]
   \<and> queue idle_beside_waiting_state ''h:80'' = [4]
   \<and> idle idle_beside_waiting_state ''h:80'' = [\<lparr>socket = 1, validTill = 21\<rparr>]
   \<and> nextSock (step idle_beside_waiting_state (SockClose 2)) = nextSock idle_beside_waiting_state
   \<and> assigned (step idle_beside_waiting_state (SockClose 2)) =
        assigned idle_beside_waiting_state @ [(4, 1)]"
  by (simp add: idle_beside_waiting_state_def stale_close_trace_def opts1_def pool_defs)

text \<open>
  Claim C3, amended. In a reachable state, when the \<open>close\<close> listener of \<open>s\<close> runs while
  the queue of its key is \<open>r # rs\<close>, the connection obtained for \<open>r\<close> (\<open>replacement\<close>) is
  handed to \<open>r\<close>, which leaves the queue, provided that connection is not destroyed; the
  connection is then in the active set. If the key has no idle entry, the connection is a
  new one, which is never destroyed: it is created, appended to the active set and handed
  to \<open>r\<close>. The witness is the case of the claim: \<open>maxSockets = 1\<close>, socket 0 active,
  request 2 queued, nothing idle.
\<close>

theorem close_replenishes:
  assumes "reachable a"
    and "listeners a s = Some (name, host, port, la)"
    and "queue a name = r # rs"
  shows "(fst (replacement a s name host port la r)
            \<notin> destroyed (snd (replacement a s name host port la r)) \<longrightarrow>
          assigned (step a (SockClose s)) = assigned a @ [(r, fst (replacement a s name host port la r))]
          \<and> queue (step a (SockClose s)) name = rs
          \<and> fst (replacement a s name host port la r) \<in> set (active (step a (SockClose s)) name))
       \<and> (idle a name = [] \<longrightarrow>
          fst (replacement a s name host port la r) = nextSock a
          \<and> nextSock (step a (SockClose s)) = Suc (nextSock a)
          \<and> assigned (step a (SockClose s)) = assigned a @ [(r, nextSock a)]
          \<and> queue (step a (SockClose s)) name = rs
          \<and> active (step a (SockClose s)) name = remove1 s (active a name) @ [nextSock a])"
proof -
  define a1 where "a1 = removeFromIdleSockets (removeFromSockets a s name) s name"
  obtain c a2 where f: "findOrCreateSocket a1 name host port la (Some r) = (c, a2)"
    by (cases "findOrCreateSocket a1 name host port la (Some r)")
  have rp: "replacement a s name host port la r = (c, a2)"
    using f by (simp add: replacement_def a1_def)
  note p = reachable_pool [OF assms(1)]
  note x = reachable_listen [OF assms(1)]
  have nm: "name = getName host port la"
    by (rule listen_ok_D(1) [OF x assms(2)])
  have p1: "pool_ok a1"
    unfolding a1_def by (intro removeFromIdleSockets_pool removeFromSockets_pool p)
  have x1: "listen_ok a1"
    unfolding a1_def by (intro removeFromIdleSockets_listen removeFromSockets_listen x)
  note fr = findOrCreateSocket_frame [OF f]
  have st: "step a (SockClose s) = emitFree a2 c"
    using assms(2) removeSocket_eq [OF assms(3), of s host port la] rp by simp
  obtain h p' l' where lc: "listeners a2 c = Some (name, h, p', l')"
    using findOrCreateSocket_listen(2) [OF x1 p1 nm f] by blast
  have nm': "name = getName h p' l'"
    by (rule listen_ok_D(1) [OF findOrCreateSocket_listen(1) [OF x1 p1 nm f] lc])
  have em: "emitFree a2 c = onFree a2 c h p' l'"
    using lc by (simp add: emitFree_def)
  have q2: "queue a2 (getName h p' l') = r # rs"
    using assms(3) fr(1) nm' by (simp add: queue_def a1_def)
  have as2: "assigned a2 = assigned a"
    using fr(2) by (simp add: a1_def)
  have cin: "c \<in> set (active a2 name)"
    by (rule findOrCreateSocket_pool(6) [OF p1 f])
  have live: "assigned (step a (SockClose s)) = assigned a @ [(r, c)]
          \<and> queue (step a (SockClose s)) name = rs
          \<and> c \<in> set (active (step a (SockClose s)) name)
          \<and> nextSock (step a (SockClose s)) = nextSock a2
          \<and> active (step a (SockClose s)) name = active a2 name"
    if d: "c \<notin> destroyed a2"
  proof -
    note v = onFree_serve [OF d q2]
    have "active (onFree a2 c h p' l') name = active a2 name"
      by (simp add: active_def v(6))
    then show ?thesis
      unfolding st em
      using v(1) [of name] v(3) v(10) nm' as2 cin by (simp del: step.simps)
  qed
  have fresh: "c = nextSock a \<and> c \<notin> destroyed a2 \<and> nextSock a2 = Suc (nextSock a)
      \<and> active a2 name = remove1 s (active a name) @ [nextSock a]"
    if i: "idle a name = []"
  proof -
    have "reusable a1 name = []"
      using i by (simp add: reusable_def a1_def)
    from findOrCreateSocket_create [OF this, of host port la "Some r"] f
    show ?thesis by (auto simp: a1_def)
  qed
  have A: "c \<notin> destroyed a2 \<longrightarrow>
          assigned (step a (SockClose s)) = assigned a @ [(r, c)]
          \<and> queue (step a (SockClose s)) name = rs
          \<and> c \<in> set (active (step a (SockClose s)) name)"
    using live by blast
  have B: "idle a name = [] \<longrightarrow>
          c = nextSock a
          \<and> nextSock (step a (SockClose s)) = Suc (nextSock a)
          \<and> assigned (step a (SockClose s)) = assigned a @ [(r, nextSock a)]
          \<and> queue (step a (SockClose s)) name = rs
          \<and> active (step a (SockClose s)) name = remove1 s (active a name) @ [nextSock a]"
  proof
    assume i: "idle a name = []"
    note fi = fresh [OF i]
    from fi have "c \<notin> destroyed a2" by blast
    note lv = live [OF this]
    from fi lv show "c = nextSock a
          \<and> nextSock (step a (SockClose s)) = Suc (nextSock a)
          \<and> assigned (step a (SockClose s)) = assigned a @ [(r, nextSock a)]
          \<and> queue (step a (SockClose s)) name = rs
          \<and> active (step a (SockClose s)) name = remove1 s (active a name) @ [nextSock a]"
      by (simp del: step.simps)
  qed
  show ?thesis
    unfolding rp fst_conv snd_conv using A B by blast
qed

theorem close_replenishes_witness:
  "reachable one_waiting_state
   \<and> maxSockets one_waiting_state = 1
   \<and> listeners one_waiting_state 0 = Some (''h:80'', ''h'', ''80'', None)
   \<and> active one_waiting_state ''h:80'' = [0]
   \<and> queue one_waiting_state ''h:80'' = [2]
   \<and> idle one_waiting_state ''h:80'' = []
   \<and> nextSock one_waiting_state = 1
   \<and> fst (replacement one_waiting_state 0 ''h:80'' ''h'' ''80'' None 2) = 1
   \<and> nextSock (step one_waiting_state (SockClose 0)) = 2
   \<and> assigned (step one_waiting_state (SockClose 0)) = [(1, 0), (2, 1)]
   \<and> queue (step one_waiting_state (SockClose 0)) ''h:80'' = []
   \<and> active (step one_waiting_state (SockClose 0)) ''h:80'' = [1]"
proof -
  have r: "reachable one_waiting_state"
    unfolding one_waiting_state_def by (intro reachable_run reachable.init)
  have l: "listeners one_waiting_state 0 = Some (''h:80'', ''h'', ''80'', None)"
    and q: "queue one_waiting_state ''h:80'' = [2]"
    and d: "maxSockets one_waiting_state = 1" "active one_waiting_state ''h:80'' = [0]"
      "idle one_waiting_state ''h:80'' = []" "nextSock one_waiting_state = 1"
      "assigned one_waiting_state = [(1, 0)]"
    by (simp_all add: one_waiting_state_def opts1_def pool_defs)
  show ?thesis
    using close_replenishes [OF r l q] r l q d by simp
qed

subsection \<open>C4: findOrCreateSocket reuses an idle connection before creating one\<close>

text \<open>
  Claim C4. If the idle list of the key holds an entry \<open>x\<close> that has not expired, the
  validation leaves a first entry \<open>e\<close>, itself not expired, and the entries \<open>rest\<close> after
  it; \<open>findOrCreateSocket\<close> returns the socket of \<open>e\<close>, the idle list becomes \<open>rest\<close>, the
  socket is appended to the active set, and no connection is created: \<open>nextSock\<close> and the
  listeners are unchanged.
\<close>

theorem findOrCreateSocket_prefers_idle:
  assumes "x \<in> set (idle a name)" and "\<not> validTill x < clock a"
  shows "\<exists>e rest. reusable a name = e # rest
       \<and> \<not> validTill e < clock a
       \<and> fst (findOrCreateSocket a name host port la r) = socket e
       \<and> idle (snd (findOrCreateSocket a name host port la r)) name = rest
       \<and> active (snd (findOrCreateSocket a name host port la r)) name = active a name @ [socket e]
       \<and> nextSock (snd (findOrCreateSocket a name host port la r)) = nextSock a
       \<and> listeners (snd (findOrCreateSocket a name host port la r)) = listeners a"
proof -
  have "reusable a name \<noteq> []"
    using assms reusable_nonempty_iff [of a name] by blast
  then obtain e rest where r: "reusable a name = e # rest"
    by (cases "reusable a name") auto
  have "\<not> expired a (hd (dropWhile (expired a) (idle a name)))"
    using r hd_dropWhile [of "expired a" "idle a name"] by (simp add: reusable_def)
  then have "\<not> validTill e < clock a"
    using r by (simp add: reusable_def expired_def)
  then show ?thesis
    using r findOrCreateSocket_reuse [OF r, of host port la r] by auto
qed

theorem findOrCreateSocket_prefers_idle_witness:
  "idle one_idle_state ''h:80'' = [\<lparr>socket = 0, validTill = 10000\<rparr>]
   \<and> clock one_idle_state = 500
   \<and> nextSock one_idle_state = 1
   \<and> fst (findOrCreateSocket one_idle_state ''h:80'' ''h'' ''80'' None (Some 2)) = 0
   \<and> idle (snd (findOrCreateSocket one_idle_state ''h:80'' ''h'' ''80'' None (Some 2))) ''h:80'' = []
   \<and> active (snd (findOrCreateSocket one_idle_state ''h:80'' ''h'' ''80'' None (Some 2))) ''h:80'' = [0]
   \<and> nextSock (snd (findOrCreateSocket one_idle_state ''h:80'' ''h'' ''80'' None (Some 2))) = 1"
proof -
  have i: "idle one_idle_state ''h:80'' = [\<lparr>socket = 0, validTill = 10000\<rparr>]"
    and c: "clock one_idle_state = 500"
    and d: "nextSock one_idle_state = 1" "active one_idle_state ''h:80'' = []"
    and r: "reusable one_idle_state ''h:80'' = [\<lparr>socket = 0, validTill = 10000\<rparr>]"
    by (simp_all add: one_idle_state_def opts2_def pool_defs)
  have x: "\<lparr>socket = 0, validTill = 10000\<rparr> \<in> set (idle one_idle_state ''h:80'')"
    and v: "\<not> validTill \<lparr>socket = 0, validTill = 10000\<rparr> < clock one_idle_state"
    using i c by simp_all
  show ?thesis
    using findOrCreateSocket_prefers_idle [OF x v, of "''h''" "''80''" None "Some 2"] i c d r
    by auto
qed

subsection \<open>C5: what validateIdle returns and what the timer adds up\<close>

text \<open>
  Claim C5 says that \<open>validateIdle\<close> returns the number of idle entries left for the key and
  that the timer's callback sums these numbers. The function returns
  \<open>sockets.length > 0\<close>, a boolean, and \<open>socketsLeft += ...\<close> counts it as 1 or 0. With two
  idle entries under one key, none expired, \<open>validateIdle\<close> returns true, not 2, and the
  callback computes \<open>socketsLeft = 1\<close>.
\<close>

theorem validateIdle_returns_count_counterexample:
  "\<exists>a'. validateIdle two_idle_state ''h:80'' = Some (True, a')
      \<and> length (idle a' ''h:80'') = 2
      \<and> (of_bool True :: nat) \<noteq> length (idle a' ''h:80'')
      \<and> fst (sweep two_idle_state (map fst (idleSockets two_idle_state)) 0) = 1"
  by (simp add: two_idle_state_def opts2_def pool_defs)

text \<open>
  Claim C5, amended. \<open>validateIdle\<close> returns whether any idle entry is left for the key once
  the expired entries at the front are removed, and leaves exactly those entries. The
  callback's \<open>socketsLeft\<close> is the number of keys that still have an idle entry; it is
  positive exactly when some idle entry is left under some key.
\<close>

theorem validateIdle_reports_nonempty:
  assumes "reachable a"
  shows "(\<forall>es. map_of (idleSockets a) name = Some es \<longrightarrow>
           (\<exists>a'. validateIdle a name = Some (reusable a name \<noteq> [], a')
                \<and> idle a' name = reusable a name))
       \<and> fst (sweep a (map fst (idleSockets a)) 0) =
           length (filter (\<lambda>n. reusable a n \<noteq> []) (map fst (idleSockets a)))
       \<and> (fst (sweep a (map fst (idleSockets a)) 0) > 0 \<longleftrightarrow>
           (\<exists>n. idle (snd (sweep a (map fst (idleSockets a)) 0)) n \<noteq> []))"
proof -
  define ks where "ks = map fst (idleSockets a)"
  have k: "distinct ks"
    using aux_ok_D(3) [OF reachable_aux [OF assms]] by (simp add: keys_ok_def ks_def)
  from sweep_count [OF k, of a 0]
  have sc1: "fst (sweep a ks 0) = length (filter (\<lambda>n. reusable a n \<noteq> []) ks)"
    and sc2: "\<And>n. idle (snd (sweep a ks 0)) n = (if n \<in> set ks then reusable a n else idle a n)"
    by simp_all
  have v: "\<exists>a'. validateIdle a name = Some (reusable a name \<noteq> [], a')
                \<and> idle a' name = reusable a name"
    if m: "map_of (idleSockets a) name = Some es" for es
  proof -
    obtain b a' where v: "validateIdle a name = Some (b, a')"
      using m validateIdle_None [of a name] by (cases "validateIdle a name") auto
    show ?thesis
      using v validateIdle_Some(1,2) [OF v] by simp
  qed
  have z: "idle a n = [] \<Longrightarrow> reusable a n = []" for n
    by (simp add: reusable_def)
  have nk: "idle a n = []" if "n \<notin> set ks" for n
  proof -
    have "map_of (idleSockets a) n = None"
      using that by (simp add: ks_def map_of_eq_None_iff)
    then show ?thesis by (rule idle_None)
  qed
  have i: "idle (snd (sweep a ks 0)) n = reusable a n" for n
    using sc2 [of n] z [of n] nk [of n] by (cases "n \<in> set ks") simp_all
  have "(fst (sweep a ks 0) > 0) = (\<exists>n. idle (snd (sweep a ks 0)) n \<noteq> [])"
  proof
    assume "fst (sweep a ks 0) > 0"
    then have "filter (\<lambda>n. reusable a n \<noteq> []) ks \<noteq> []"
      using sc1 by simp
    then obtain n where "reusable a n \<noteq> []"
      by (auto simp: filter_empty_conv)
    then show "\<exists>n. idle (snd (sweep a ks 0)) n \<noteq> []"
      using i by auto
  next
    assume "\<exists>n. idle (snd (sweep a ks 0)) n \<noteq> []"
    then obtain n where n: "reusable a n \<noteq> []"
      using i by auto
    then have "n \<in> set ks"
      using nk [of n] z [of n] by blast
    then have "filter (\<lambda>n. reusable a n \<noteq> []) ks \<noteq> []"
      using n by (auto simp: filter_empty_conv)
    then show "fst (sweep a ks 0) > 0"
      using sc1 by simp
  qed
  with v sc1 show ?thesis
    unfolding ks_def by blast
qed

theorem validateIdle_reports_nonempty_witness:
  "reachable two_idle_state
   \<and> map_of (idleSockets two_idle_state) ''h:80'' =
        Some [\<lparr>socket = 0, validTill = 10000\<rparr>, \<lparr>socket = 1, validTill = 10000\<rparr>]
   \<and> (\<exists>a'. validateIdle two_idle_state ''h:80'' = Some (True, a')
         \<and> idle a' ''h:80'' = [\<lparr>socket = 0, validTill = 10000\<rparr>, \<lparr>socket = 1, validTill = 10000\<rparr>])
   \<and> fst (sweep two_idle_state (map fst (idleSockets two_idle_state)) 0) = 1"
proof -
  have r: "reachable two_idle_state"
    unfolding two_idle_state_def by (intro reachable_run reachable.init)
  have d: "map_of (idleSockets two_idle_state) ''h:80'' =
        Some [\<lparr>socket = 0, validTill = 10000\<rparr>, \<lparr>socket = 1, validTill = 10000\<rparr>]"
    "reusable two_idle_state ''h:80'' =
        [\<lparr>socket = 0, validTill = 10000\<rparr>, \<lparr>socket = 1, validTill = 10000\<rparr>]"
    "map fst (idleSockets two_idle_state) = [''h:80'']"
    by (simp_all add: two_idle_state_def opts2_def pool_defs)
  show ?thesis
    using validateIdle_reports_nonempty [OF r, of "''h:80''"] r d by simp
qed

subsection \<open>C6: the expiry threshold\<close>

text \<open>
  Claim C6. \<open>putIdleSocket\<close> records \<open>validTill = now + keepAlive\<close>. In a reachable state
  the entries of a key stand in the order of their \<open>validTill\<close> (\<open>expiry_ok\<close>), so the
  entries that \<open>validateIdle\<close> splices off the front are all the entries with
  \<open>validTill < now\<close>: it destroys the sockets of exactly those, none before its
  \<open>validTill\<close>, and it leaves the others as they were, in their order.
\<close>

theorem expiry_threshold:
  assumes "reachable a" and "validateIdle a name = Some (b, a')"
  shows "idle (putIdleSocket a s name) name =
           idle a name @ [\<lparr>socket = s, validTill = clock a + keepAlive a\<rparr>]
       \<and> destroyed a' =
           destroyed a \<union> socket ` set (filter (\<lambda>e. validTill e < clock a) (idle a name))
       \<and> idle a' name = filter (\<lambda>e. \<not> validTill e < clock a) (idle a name)"
proof -
  have srt: "sorted (map validTill (idle a name))"
    by (rule expiry_ok_D(1) [OF aux_ok_D(1) [OF reachable_aux [OF assms(1)]]])
  have ex: "expired a = (\<lambda>e. validTill e < clock a)"
    by (simp add: expired_def fun_eq_iff)
  have st: "stale a name = filter (\<lambda>e. validTill e < clock a) (idle a name)"
    unfolding stale_def ex by (rule sorted_takeWhile_filter [OF srt])
  have re: "reusable a name = filter (\<lambda>e. \<not> validTill e < clock a) (idle a name)"
    unfolding reusable_def ex by (rule sorted_dropWhile_filter [OF srt])
  note vs = validateIdle_Some [OF assms(2)]
  have "destroyed a' =
      destroyed a \<union> socket ` set (filter (\<lambda>e. validTill e < clock a) (idle a name))"
    using vs(3) st by simp
  moreover have "idle a' name = filter (\<lambda>e. \<not> validTill e < clock a) (idle a name)"
    using vs(2) [of name] re by simp
  ultimately show ?thesis by simp
qed

theorem expiry_threshold_witness:
  "reachable half_expired_state
   \<and> clock half_expired_state = 12
   \<and> idle half_expired_state ''h:80'' =
        [\<lparr>socket = 0, validTill = 10\<rparr>, \<lparr>socket = 1, validTill = 15\<rparr>]
   \<and> idle (putIdleSocket half_expired_state 7 ''h:80'') ''h:80'' =
        [\<lparr>socket = 0, validTill = 10\<rparr>, \<lparr>socket = 1, validTill = 15\<rparr>,
         \<lparr>socket = 7, validTill = 22\<rparr>]
   \<and> (\<exists>b a'. validateIdle half_expired_state ''h:80'' = Some (b, a')
         \<and> destroyed a' = {0}
         \<and> idle a' ''h:80'' = [\<lparr>socket = 1, validTill = 15\<rparr>])"
proof -
  have r: "reachable half_expired_state"
    unfolding half_expired_state_def by (intro reachable_run reachable.init)
  have d: "clock half_expired_state = 12" "keepAlive half_expired_state = 10"
    "destroyed half_expired_state = {}"
    "idle half_expired_state ''h:80'' =
        [\<lparr>socket = 0, validTill = 10\<rparr>, \<lparr>socket = 1, validTill = 15\<rparr>]"
    by (simp_all add: half_expired_state_def opts3_def pool_defs)
  have "map_of (idleSockets half_expired_state) ''h:80'' \<noteq> None"
    by (simp add: half_expired_state_def opts3_def pool_defs)
  then obtain b a' where v: "validateIdle half_expired_state ''h:80'' = Some (b, a')"
    using validateIdle_None [of half_expired_state "''h:80''"]
    by (cases "validateIdle half_expired_state ''h:80''") auto
  show ?thesis
    using expiry_threshold [OF r v, of 7] r v d by simp
qed

subsection \<open>C7: the timer stops when nothing is idle and is set again on parking\<close>

text \<open>
  Claim C7. In a reachable state at most one timeout is pending. If no idle entry is left
  under any key when the callback has run, no timeout is pending afterwards,
  \<open>validationTimer\<close> is absent and the timer does not fire again; \<open>putIdleSocket\<close> always leaves exactly one timeout pending,
  so it sets the timer again after it has stopped; and \<open>setupValidator\<close> changes nothing
  while \<open>validationTimer\<close> is present.
\<close>

theorem reaper_stops_and_restarts:
  assumes "reachable a"
  shows "pendingTimers a \<le> 1
       \<and> ((\<forall>n. idle (step a TimerFires) n = []) \<longrightarrow>
            pendingTimers (step a TimerFires) = 0 \<and> \<not> validationTimer (step a TimerFires)
            \<and> step (step a TimerFires) TimerFires = step a TimerFires)
       \<and> pendingTimers (putIdleSocket a s name) = 1
       \<and> validationTimer (putIdleSocket a s name)
       \<and> (validationTimer a \<longrightarrow> setupValidator a = a)"
proof -
  note x = aux_ok_D [OF reachable_aux [OF assms]]
  have t: "pendingTimers a = (if validationTimer a then 1 else 0)"
    using x(2) by (simp add: timer_ok_def)
  have one: "pendingTimers a \<le> 1"
    using t by simp
  have stop0: "pendingTimers (step a TimerFires) = 0 \<and> \<not> validationTimer (step a TimerFires)"
    if e: "\<forall>n. idle (step a TimerFires) n = []"
  proof (cases "pendingTimers a > 0")
    case False
    then show ?thesis using t by (simp split: if_splits)
  next
    case True
    define a1 where "a1 = a\<lparr>pendingTimers := pendingTimers a - 1, validationTimer := False\<rparr>"
    have k1: "distinct (map fst (idleSockets a1))"
      using x(3) by (simp add: keys_ok_def a1_def)
    obtain k a2 where sw: "sweep a1 (map fst (idleSockets a1)) 0 = (k, a2)"
      by (cases "sweep a1 (map fst (idleSockets a1)) 0")
    note sc = sweep_count [OF k1, of a1 0, unfolded sw]
    note fr = sweep_timer [of a1 "map fst (idleSockets a1)" 0, unfolded sw]
    have st: "step a TimerFires = (if k > 0 then setupValidator a2 else a2)"
      using True sw by (simp add: validatorTick_def a1_def Let_def)
    have id2: "\<forall>n. idle a2 n = []"
      using e st by (simp split: if_splits)
    have "\<forall>n \<in> set (map fst (idleSockets a1)). reusable a1 n = []"
      using sc id2 by (metis snd_conv)
    then have "filter (\<lambda>n. reusable a1 n \<noteq> []) (map fst (idleSockets a1)) = []"
      by (simp add: filter_empty_conv)
    then have "k = 0"
      using sc by simp
    then show ?thesis
      using st fr t True by (simp add: a1_def split: if_splits)
  qed
  have stop: "pendingTimers (step a TimerFires) = 0 \<and> \<not> validationTimer (step a TimerFires)
      \<and> step (step a TimerFires) TimerFires = step a TimerFires"
    if e: "\<forall>n. idle (step a TimerFires) n = []"
  proof -
    define b where "b = step a TimerFires"
    have "pendingTimers b = 0 \<and> \<not> validationTimer b"
      unfolding b_def by (rule stop0 [OF e])
    moreover from this have "step b TimerFires = b"
      by simp
    ultimately show ?thesis
      unfolding b_def by blast
  qed
  have restart: "pendingTimers (putIdleSocket a s name) = 1"
    using t by (simp add: putIdleSocket_def setupValidator_def Let_def)
  have noop: "validationTimer a \<Longrightarrow> setupValidator a = a"
    by (simp add: setupValidator_def)
  from one stop restart noop show ?thesis
    by (simp del: step.simps)
qed

theorem reaper_stops_and_restarts_witness:
  "reachable expired_idle_state
   \<and> pendingTimers expired_idle_state = 1
   \<and> validationTimer expired_idle_state
   \<and> setupValidator expired_idle_state = expired_idle_state
   \<and> (\<forall>n. idle (step expired_idle_state TimerFires) n = [])
   \<and> pendingTimers (step expired_idle_state TimerFires) = 0
   \<and> \<not> validationTimer (step expired_idle_state TimerFires)
   \<and> step (step expired_idle_state TimerFires) TimerFires = step expired_idle_state TimerFires
   \<and> reachable (step expired_idle_state TimerFires)
   \<and> pendingTimers (putIdleSocket (step expired_idle_state TimerFires) 0 ''h:80'') = 1
   \<and> validationTimer (putIdleSocket (step expired_idle_state TimerFires) 0 ''h:80'')"
proof -
  have r: "reachable expired_idle_state"
    unfolding expired_idle_state_def by (intro reachable_run reachable.init)
  have r': "reachable (step expired_idle_state TimerFires)"
    by (rule reachable.step [OF r])
  have d: "pendingTimers expired_idle_state = 1" "validationTimer expired_idle_state"
    by (simp_all add: expired_idle_state_def opts1_def pool_defs)
  have e: "\<forall>n. idle (step expired_idle_state TimerFires) n = []"
    by (simp add: expired_idle_state_def opts1_def pool_defs)
  show ?thesis
    using reaper_stops_and_restarts [OF r, of 0 "''h:80''"]
      reaper_stops_and_restarts [OF r', of 0 "''h:80''"] r r' d e
    by (simp del: step.simps)
qed

subsection \<open>C8: a freed connection with no waiters is parked, dead or not\<close>

text \<open>
  Claim C8. In the handler of \<open>free\<close>, the \<open>destroyed\<close> check only gates the branch that
  serves a waiting request. When the endpoint has no waiting request, the handler removes the
  connection from the active set (its first occurrence, as \<open>indexOf\<close> and \<open>splice\<close> do),
  appends it to the idle list with the expiry \<open>now + keepAlive\<close> and leaves the validation
  timer set, whatever the connection's \<open>destroyed\<close> flag is: the statement has no
  assumption on \<open>destroyed a\<close>. The witness runs it on a destroyed connection.
\<close>

theorem free_without_waiters_parks:
  assumes "queue a (getName host port la) = []"
  shows "active (onFree a s host port la) (getName host port la) =
           remove1 s (active a (getName host port la))
       \<and> idle (onFree a s host port la) (getName host port la) =
           idle a (getName host port la) @ [\<lparr>socket = s, validTill = clock a + keepAlive a\<rparr>]
       \<and> validationTimer (onFree a s host port la)"
  using assms by (simp add: onFree_park)

theorem free_without_waiters_parks_witness:
  "0 \<in> destroyed dead_free_state
   \<and> queue dead_free_state (getName ''h'' ''80'' None) = []
   \<and> active dead_free_state ''h:80'' = [0]
   \<and> active (onFree dead_free_state 0 ''h'' ''80'' None) ''h:80'' = []
   \<and> idle (onFree dead_free_state 0 ''h'' ''80'' None) ''h:80'' =
        [\<lparr>socket = 0, validTill = 10000\<rparr>]
   \<and> validationTimer (onFree dead_free_state 0 ''h'' ''80'' None)"
proof -
  have q: "queue dead_free_state (getName ''h'' ''80'' None) = []"
    by (simp add: dead_free_state_def opts2_def pool_defs)
  have d: "0 \<in> destroyed dead_free_state" "active dead_free_state ''h:80'' = [0]"
    "idle dead_free_state ''h:80'' = []" "clock dead_free_state = 0"
    "keepAlive dead_free_state = 10000" "getName ''h'' ''80'' None = ''h:80''"
    by (simp_all add: dead_free_state_def opts2_def pool_defs)
  show ?thesis
    using free_without_waiters_parks [OF q, of 0] q d by simp
qed

subsection \<open>C9: no connection is both active and idle\<close>

text \<open>
  The invariant of claim C9 needs the sockets to keep to their protocol. A socket that
  emitted \<open>free\<close> twice for one \<open>onSocket\<close> would be parked twice, and the next request
  would find it both in the active set and in the idle list:
\<close>

lemma second_free_breaks_disjointness:
  "set (active (addRequest (emitFree (emitFree saturated_state 0) 0) 2 ''h'' ''80'' None) ''h:80'')
     \<inter> socket ` set (idle (addRequest (emitFree (emitFree saturated_state 0) 0) 2 ''h'' ''80'' None)
           ''h:80'') = {0}"
  by (simp add: saturated_state_def opts1_def pool_defs)

text \<open>
  Claim C9. In every reachable state and for every key, no connection is at once in the
  active set and in the idle list. Parking removes the connection from the active set before
  it appends it to the idle list, so that it is no longer active afterwards; and a
  connection that \<open>findIdleSocket\<close> returns has left the idle list and is in the active set.
\<close>

theorem active_idle_disjoint:
  assumes "reachable a"
  shows "set (active a n) \<inter> socket ` set (idle a n) = {}
       \<and> s \<notin> set (active (putIdleSocket (removeFromSockets a s n) s n) n)
       \<and> (\<forall>c a'. findIdleSocket a n = (Some c, a') \<longrightarrow>
             c \<in> set (active a' n) \<and> c \<notin> socket ` set (idle a' n))"
proof -
  note p = reachable_pool [OF assms]
  have g: "set (active a n) \<inter> socket ` set (idle a n) = {}"
    by (rule pool_ok_D(8) [OF p])
  have k: "s \<notin> set (active (putIdleSocket (removeFromSockets a s n) s n) n)"
    using pool_ok_D(4) [OF p, of n] by simp
  have u: "c \<in> set (active a' n) \<and> c \<notin> socket ` set (idle a' n)"
    if f: "findIdleSocket a n = (Some c, a')" for c a'
  proof (cases "reusable a n")
    case Nil
    from findIdleSocket_empty [OF Nil] f show ?thesis by auto
  next
    case (Cons e rest)
    have "distinct (map socket (e # rest))"
      using reusable_distinct [OF pool_ok_D(5) [OF p, of n]] Cons by simp
    with findIdleSocket_reuse [OF Cons] f show ?thesis by auto
  qed
  from g k u show ?thesis by blast
qed

theorem active_idle_disjoint_witness:
  "reachable mixed_state
   \<and> active mixed_state ''h:80'' = [1]
   \<and> idle mixed_state ''h:80'' = [\<lparr>socket = 0, validTill = 10000\<rparr>]
   \<and> set (active mixed_state ''h:80'') \<inter> socket ` set (idle mixed_state ''h:80'') = {}"
proof -
  have r: "reachable mixed_state"
    unfolding mixed_state_def by (intro reachable_run reachable.init)
  have v: "active mixed_state ''h:80'' = [1]"
    "idle mixed_state ''h:80'' = [\<lparr>socket = 0, validTill = 10000\<rparr>]"
    by (simp_all add: mixed_state_def opts2_def pool_defs)
  show ?thesis
    using active_idle_disjoint [OF r, of "''h:80''" 0] r v by simp
qed

subsection \<open>C10: findIdleSocket leaves an empty array behind\<close>

text \<open>
  Claim C10. When \<open>findIdleSocket\<close> takes the last idle entry of a key, the key stays in
  \<open>idleSockets\<close> with an empty array. The two paths that delete the key of a list they have
  emptied are \<open>validateIdle\<close> (every entry of a non-empty list expired) and
  \<open>removeFromIdleSockets\<close> (the spliced entry was the only one).
\<close>

theorem findIdleSocket_leaves_empty_array:
  "(reusable a name = [e] \<longrightarrow>
      fst (findIdleSocket a name) = Some (socket e)
      \<and> map_of (idleSockets (snd (findIdleSocket a name))) name = Some [])
   \<and> (map_of (idleSockets a) name = Some es \<and> es \<noteq> [] \<and> reusable a name = [] \<longrightarrow>
      (\<exists>a'. validateIdle a name = Some (False, a') \<and> map_of (idleSockets a') name = None))
   \<and> (map_of (idleSockets a) name = Some es \<and> s \<in> socket ` set es \<and> spliceSocket s es = [] \<longrightarrow>
      map_of (idleSockets (removeFromIdleSockets a s name)) name = None)"
proof (intro conjI impI)
  assume "reusable a name = [e]"
  from findIdleSocket_reuse [OF this]
  show "fst (findIdleSocket a name) = Some (socket e)"
    and "map_of (idleSockets (snd (findIdleSocket a name))) name = Some []"
    by auto
next
  assume h: "map_of (idleSockets a) name = Some es \<and> es \<noteq> [] \<and> reusable a name = []"
  then have i: "idle a name = es"
    by (simp add: idle_Some)
  have d: "dropWhile (expired a) es = []"
    using h i by (simp add: reusable_def)
  have t: "takeWhile (expired a) es \<noteq> []"
    using h d by (metis takeWhile_dropWhile_id append_Nil2)
  show "\<exists>a'. validateIdle a name = Some (False, a') \<and> map_of (idleSockets a') name = None"
    using h validateIdle_eq [of a name es] d t by (simp add: delete_conv')
next
  assume "map_of (idleSockets a) name = Some es \<and> s \<in> socket ` set es \<and> spliceSocket s es = []"
  then show "map_of (idleSockets (removeFromIdleSockets a s name)) name = None"
    by (simp add: removeFromIdleSockets_def delete_conv')
qed

theorem findIdleSocket_leaves_empty_array_witness:
  "reusable one_idle_state ''h:80'' = [\<lparr>socket = 0, validTill = 10000\<rparr>]
   \<and> fst (findIdleSocket one_idle_state ''h:80'') = Some 0
   \<and> map_of (idleSockets (snd (findIdleSocket one_idle_state ''h:80''))) ''h:80'' = Some []
   \<and> map_of (idleSockets expired_idle_state) ''h:80'' = Some [\<lparr>socket = 0, validTill = 10\<rparr>]
   \<and> reusable expired_idle_state ''h:80'' = []
   \<and> (\<exists>a'. validateIdle expired_idle_state ''h:80'' = Some (False, a')
           \<and> map_of (idleSockets a') ''h:80'' = None)
   \<and> map_of (idleSockets one_idle_state) ''h:80'' = Some [\<lparr>socket = 0, validTill = 10000\<rparr>]
   \<and> map_of (idleSockets (removeFromIdleSockets one_idle_state 0 ''h:80'')) ''h:80'' = None"
proof -
  have r1: "reusable one_idle_state ''h:80'' = [\<lparr>socket = 0, validTill = 10000\<rparr>]"
    and m1: "map_of (idleSockets one_idle_state) ''h:80'' = Some [\<lparr>socket = 0, validTill = 10000\<rparr>]"
    by (simp_all add: one_idle_state_def opts2_def pool_defs)
  have m2: "map_of (idleSockets expired_idle_state) ''h:80'' = Some [\<lparr>socket = 0, validTill = 10\<rparr>]"
    and r2: "reusable expired_idle_state ''h:80'' = []"
    by (simp_all add: expired_idle_state_def opts1_def pool_defs)
  show ?thesis
    using findIdleSocket_leaves_empty_array
            [of one_idle_state "''h:80''" "\<lparr>socket = 0, validTill = 10000\<rparr>"
                "[\<lparr>socket = 0, validTill = 10000\<rparr>]" 0]
          findIdleSocket_leaves_empty_array
            [of expired_idle_state "''h:80''" "\<lparr>socket = 0, validTill = 10\<rparr>"
                "[\<lparr>socket = 0, validTill = 10\<rparr>]" 0]
          r1 m1 m2 r2
    by simp
qed

end
